theory Spec2Isabelle
  imports Complex_Main "HOL-Library.Word" "HOL-Library.Sublist"
begin

section \<open>folk-stream-mux: constants and data\<close>

text \<open>
  The program is \<^verbatim>\<open>presenter/folk-stream-mux.c\<close>. Bytes (\<^verbatim>\<open>uint8_t\<close>) are
  8-bit words. Sizes and offsets (\<^verbatim>\<open>size_t\<close>) are natural numbers: every
  offset the scanner computes is at most the buffer length, so none of its additions
  can wrap. A buffer together with its fill level (\<^verbatim>\<open>buf\<close>, \<^verbatim>\<open>buflen\<close>) is the
  list of the bytes in use.
\<close>

type_synonym byte = "8 word"

definition MAX_INPUTS :: nat where
  "MAX_INPUTS = 8"

definition READ_BUF_SIZE :: nat where
  "READ_BUF_SIZE = 2 * 1024 * 1024"

definition MAX_FRAME_SIZE :: nat where
  "MAX_FRAME_SIZE = 1 * 1024 * 1024"

section \<open>JPEG frame extraction\<close>

text \<open>
  The inner loop of \<^verbatim>\<open>last_jpeg\<close>: from index \<open>j\<close>, look for the first
  position holding the end marker \<^verbatim>\<open>FF D9\<close>. \<open>None\<close> is the loop running out
  of buffer (the \<^verbatim>\<open>break\<close> after it).
\<close>

function scan_eoi :: "byte list \<Rightarrow> nat \<Rightarrow> nat option" where
  "scan_eoi buf j =
     (if j + 1 < length buf then
        (if buf ! j = 0xFF \<and> buf ! (j + 1) = 0xD9 then Some j
         else scan_eoi buf (j + 1))
      else None)"
  by pat_completeness auto
termination
  by (relation "measure (\<lambda>(buf, j). length buf - j)") auto

declare scan_eoi.simps [simp del]

lemma scan_eoi_bounds:
  "scan_eoi buf j = Some e \<Longrightarrow> j \<le> e \<and> e + 1 < length buf"
proof (induction buf j rule: scan_eoi.induct)
  case (1 buf j)
  show ?case
  proof (cases "j + 1 < length buf")
    case False
    with "1.prems" show ?thesis by (simp add: scan_eoi.simps [of buf j])
  next
    case inb: True
    show ?thesis
    proof (cases "buf ! j = 0xFF \<and> buf ! (j + 1) = 0xD9")
      case True
      with inb "1.prems" show ?thesis by (simp add: scan_eoi.simps [of buf j])
    next
      case False
      with inb "1.prems" have "scan_eoi buf (j + 1) = Some e"
        by (auto simp: scan_eoi.simps [of buf j])
      with "1.IH" [OF inb False] show ?thesis by simp
    qed
  qed
qed

text \<open>
  The outer loop of \<^verbatim>\<open>last_jpeg\<close>. \<open>best\<close> is the pair
  (\<^verbatim>\<open>best_soi - buf\<close>, \<^verbatim>\<open>best_len\<close>), \<open>None\<close> while \<^verbatim>\<open>best_soi\<close> is
  \<^verbatim>\<open>NULL\<close>. A start marker with no end marker after it stops the scan.
\<close>

function last_jpeg_loop ::
  "byte list \<Rightarrow> nat \<Rightarrow> (nat \<times> nat) option \<Rightarrow> (nat \<times> nat) option" where
  "last_jpeg_loop buf pos best =
     (if pos + 1 < length buf then
        (if buf ! pos = 0xFF \<and> buf ! (pos + 1) = 0xD8 then
           (case scan_eoi buf (pos + 2) of
              Some j \<Rightarrow>
                (let flen = (j + 2) - pos
                 in last_jpeg_loop buf (j + 2)
                      (if flen \<le> MAX_FRAME_SIZE then Some (pos, flen) else best))
            | None \<Rightarrow> best)
         else last_jpeg_loop buf (pos + 1) best)
      else best)"
  by pat_completeness auto
termination
proof (relation "measure (\<lambda>(buf, pos, best). length buf - pos)")
  show "wf (measure (\<lambda>(buf, pos, best). length buf - pos))" by simp
next
  fix buf :: "byte list" and pos :: nat and best :: "(nat \<times> nat) option"
    and j flen :: nat
  assume "pos + 1 < length buf" and "scan_eoi buf (pos + 2) = Some j"
  then show "((buf, j + 2, if flen \<le> MAX_FRAME_SIZE then Some (pos, flen) else best),
              buf, pos, best) \<in> measure (\<lambda>(buf, pos, best). length buf - pos)"
    using scan_eoi_bounds [of buf "pos + 2" j] by auto
next
  fix buf :: "byte list" and pos :: nat and best :: "(nat \<times> nat) option"
  assume "pos + 1 < length buf"
  then show "((buf, pos + 1, best), buf, pos, best)
             \<in> measure (\<lambda>(buf, pos, best). length buf - pos)"
    by simp
qed

declare last_jpeg_loop.simps [simp del]

text \<open>
  \<^verbatim>\<open>last_jpeg(buf, buflen, &len)\<close>: the returned pointer as an offset into the
  buffer, with the length stored through \<^verbatim>\<open>len\<close>; \<open>None\<close> is \<^verbatim>\<open>NULL\<close>.
\<close>

definition last_jpeg :: "byte list \<Rightarrow> (nat \<times> nat) option" where
  "last_jpeg buf = last_jpeg_loop buf 0 None"

text \<open>
  A result of the scan that is safe to copy: at most \<^verbatim>\<open>MAX_FRAME_SIZE\<close> bytes, all
  of them inside the buffer.
\<close>

definition region_ok :: "byte list \<Rightarrow> (nat \<times> nat) option \<Rightarrow> bool" where
  "region_ok buf r =
     (case r of None \<Rightarrow> True
      | Some (off, len) \<Rightarrow> 4 \<le> len \<and> len \<le> MAX_FRAME_SIZE \<and> off + len \<le> length buf)"

text \<open>
  The frames of a buffer as the specification describes them (section 4.1): scan for a
  start marker, then search forward for the matching end marker; the region from the
  start marker through the end marker is a complete frame, the scan resumes behind it,
  and a start marker with no end marker after it ends the scan. This reading works on
  the list of bytes itself, with no indices; \<open>complete_frames\<close> lists the frames in
  buffer order as (offset, length).
\<close>

fun eoi_offset :: "byte list \<Rightarrow> nat option" where
  "eoi_offset (a # b # xs) =
     (if a = 0xFF \<and> b = 0xD9 then Some 0 else map_option Suc (eoi_offset (b # xs)))"
| "eoi_offset [a] = None"
| "eoi_offset [] = None"

function frames_from :: "nat \<Rightarrow> byte list \<Rightarrow> (nat \<times> nat) list" where
  "frames_from off (a # b # xs) =
     (if a = 0xFF \<and> b = 0xD8 then
        (case eoi_offset xs of
           None \<Rightarrow> []
         | Some k \<Rightarrow> (off, k + 4) # frames_from (off + k + 4) (drop (k + 2) xs))
      else frames_from (off + 1) (b # xs))"
| "frames_from off [a] = []"
| "frames_from off [] = []"
  by pat_completeness auto
termination
  by (relation "measure (\<lambda>(off, xs). length xs)") auto

definition complete_frames :: "byte list \<Rightarrow> (nat \<times> nat) list" where
  "complete_frames buf = frames_from 0 buf"

text \<open>The last frame of a list that fits the size bound, if there is one.\<close>

definition last_fitting :: "(nat \<times> nat) list \<Rightarrow> (nat \<times> nat) option" where
  "last_fitting fs =
     (case filter (\<lambda>f. snd f \<le> MAX_FRAME_SIZE) fs of
        [] \<Rightarrow> None
      | g # gs \<Rightarrow> Some (last (g # gs)))"

section \<open>Input channels\<close>

text \<open>
  \<^verbatim>\<open>struct timespec\<close> and \<^verbatim>\<open>elapsed_ms\<close>. The C function computes in
  \<^verbatim>\<open>double\<close>; the model computes the same expression in exact arithmetic. The only
  use of the result is the comparison with the integer \<^verbatim>\<open>timeout_ms\<close> (or
  \<^verbatim>\<open>interval_ms\<close>), and rounding does not change its outcome: both differences
  are integers, so an exact value below the integer bound is below it by at least one
  millionth, far more than a double rounds by at the magnitudes a 32-bit bound allows,
  and an exact value at or above the bound stays there, rounding being monotone.
\<close>

record timespec =
  tv_sec :: int
  tv_nsec :: int

definition elapsed_ms :: "timespec \<Rightarrow> timespec \<Rightarrow> real" where
  "elapsed_ms a b =
     real_of_int (tv_sec b - tv_sec a) * 1000 + real_of_int (tv_nsec b - tv_nsec a) / 1000000"

text \<open>
  The time from \<open>a\<close> to \<open>b\<close> as the two clock readings give it, in whole
  nanoseconds: the \<open>now - captureTime\<close> of the specification.
\<close>

definition elapsed_ns :: "timespec \<Rightarrow> timespec \<Rightarrow> int" where
  "elapsed_ns a b = (tv_sec b - tv_sec a) * 1000000000 + (tv_nsec b - tv_nsec a)"

text \<open>
  \<^verbatim>\<open>Input\<close>: \<open>read_buf\<close> is the first \<^verbatim>\<open>read_used\<close> bytes of the 2 MiB read
  buffer and \<open>frame\<close> the first \<^verbatim>\<open>frame_size\<close> bytes of the 1 MiB frame buffer, so
  that \<^verbatim>\<open>read_used\<close> and \<^verbatim>\<open>frame_size\<close> are the lengths of the two lists. The
  path and the descriptor play no part in what follows.
\<close>

record Input =
  read_buf :: "byte list"
  frame :: "byte list"
  frame_time :: timespec


abbreviation frame_size :: "Input \<Rightarrow> nat" where
  "frame_size inp \<equiv> length (frame inp)"

text \<open>Subtraction of \<^verbatim>\<open>size_t\<close> values (64 bits): it wraps around below zero.\<close>

definition size_sub :: "nat \<Rightarrow> nat \<Rightarrow> nat" where
  "size_sub a b = nat ((int a - int b) mod 2 ^ 64)"

text \<open>
  The read loop of \<^verbatim>\<open>drain\<close>. The descriptor is non-blocking; what the kernel
  hands out is a list of chunks, one per \<^verbatim>\<open>read\<close> call: \<^verbatim>\<open>read\<close> returns the
  next chunk, cut to the \<open>space\<close> asked for (the rest of the chunk stays in the pipe);
  no chunk left is \<^verbatim>\<open>EAGAIN\<close> (\<open>n < 0\<close>) and an empty chunk is \<open>n = 0\<close>, both
  of which leave the loop. The result is the buffer and the chunks not read.
\<close>

function drain_read :: "byte list \<Rightarrow> byte list list \<Rightarrow> byte list \<times> byte list list" where
  "drain_read rb chunks =
     (let space = size_sub READ_BUF_SIZE (length rb);
          half = READ_BUF_SIZE div 2;
          rb1 = (if space = 0 then drop half rb else rb);
          space1 = size_sub READ_BUF_SIZE (length rb1)
      in case chunks of
           [] \<Rightarrow> (rb1, [])
         | c # cs \<Rightarrow>
             (let n = min (length c) space1
              in if n = 0 then (rb1, if c = [] then cs else c # cs)
                 else drain_read (rb1 @ take n c) (if n < length c then drop n c # cs else cs)))"
  by pat_completeness auto
termination
  by (relation "measure (\<lambda>(rb, chunks). sum_list (map length chunks) + length chunks)") auto

declare drain_read.simps [simp del]

text \<open>
  \<^verbatim>\<open>drain\<close>: read, then keep the latest complete frame and drop the bytes up to and
  including it. \<open>now\<close> is what \<^verbatim>\<open>clock_gettime\<close> returns.
\<close>

definition drain :: "Input \<Rightarrow> byte list list \<Rightarrow> timespec \<Rightarrow> Input \<times> byte list list" where
  "drain inp chunks now =
     (let (rb, rest) = drain_read (read_buf inp) chunks
      in if length rb = 0 then (inp\<lparr>read_buf := rb\<rparr>, rest)
         else
           (case last_jpeg rb of
              None \<Rightarrow> (inp\<lparr>read_buf := rb\<rparr>, rest)
            | Some (off, flen) \<Rightarrow>
                if flen > 0 then
                  (let consumed = off + flen
                   in (inp\<lparr>read_buf := (if consumed < length rb then drop consumed rb else []),
                           frame := take flen (drop off rb),
                           frame_time := now\<rparr>, rest))
                else (inp\<lparr>read_buf := rb\<rparr>, rest)))"

section \<open>Selection state\<close>

text \<open>
  The globals the selection works on. \<open>inputs\<close> is the static array of
  \<^verbatim>\<open>MAX_INPUTS\<close> entries; \<open>num_inputs\<close> and \<open>selected\<close> are C \<^verbatim>\<open>int\<close>s.
  \<open>testcard\<close> is the pointer (\<open>None\<close> is \<^verbatim>\<open>NULL\<close>) and \<open>testcard_size\<close> the
  size stored beside it.
\<close>

datatype MuxMode = MODE_AUTO | MODE_SOURCE | MODE_TESTCARD

record mux =
  inputs :: "Input list"
  num_inputs :: int
  mode :: MuxMode
  selected :: int
  testcard :: "byte list option"
  testcard_size :: nat
  timeout_ms :: int

text \<open>
  What \<^verbatim>\<open>choose_frame\<close> returns is a pointer to one of the frame buffers, or to
  the testcard: \<open>frame_ptr\<close> says which one, and the length stored through
  \<^verbatim>\<open>len\<close> goes with it. \<open>None\<close> is \<^verbatim>\<open>NULL\<close>.
\<close>

datatype frame_ptr = InputFrame nat | TestcardFrame

text \<open>The label \<^verbatim>\<open>use_testcard\<close>.\<close>

definition use_testcard :: "mux \<Rightarrow> (frame_ptr \<times> nat) option" where
  "use_testcard st =
     (if testcard st \<noteq> None \<and> testcard_size st > 0
      then Some (TestcardFrame, testcard_size st) else None)"

text \<open>
  The test \<^verbatim>\<open>inp->frame_size > 0 && elapsed_ms(&inp->frame_time, &now) < timeout_ms\<close>,
  written out twice in \<^verbatim>\<open>choose_frame\<close>.
\<close>

definition recent :: "mux \<Rightarrow> timespec \<Rightarrow> Input \<Rightarrow> bool" where
  "recent st now inp =
     (frame_size inp > 0 \<and> elapsed_ms (frame_time inp) now < real_of_int (timeout_ms st))"

text \<open>The \<^verbatim>\<open>for\<close> loop of \<^verbatim>\<open>choose_frame\<close>, from \<open>i\<close> downwards.\<close>

function auto_scan :: "mux \<Rightarrow> timespec \<Rightarrow> int \<Rightarrow> (frame_ptr \<times> nat) option" where
  "auto_scan st now i =
     (if i \<ge> 0 then
        (let inp = inputs st ! nat i
         in if recent st now inp then Some (InputFrame (nat i), frame_size inp)
            else auto_scan st now (i - 1))
      else use_testcard st)"
  by pat_completeness auto
termination
  by (relation "measure (\<lambda>(st, now, i). nat (i + 1))") auto

declare auto_scan.simps [simp del]

definition choose_frame :: "mux \<Rightarrow> timespec \<Rightarrow> (frame_ptr \<times> nat) option" where
  "choose_frame st now =
     (if mode st = MODE_TESTCARD then use_testcard st
      else if mode st = MODE_SOURCE \<and> selected st \<ge> 0 \<and> selected st < num_inputs st then
        (let inp = inputs st ! nat (selected st)
         in if recent st now inp then Some (InputFrame (nat (selected st)), frame_size inp)
            else use_testcard st)
      else auto_scan st now (num_inputs st - 1))"

text \<open>
  States to run the selection on: three inputs, a timeout of 500 ms, a testcard of five
  bytes, the clock at 10 s. A frame captured at 9.8 s is 200 ms old, one captured at
  9.0 s is 1000 ms old, one captured at 9.5 s is exactly 500 ms old, and one captured a
  nanosecond later is just below the threshold.
\<close>

definition demo_now :: timespec where
  "demo_now = \<lparr>tv_sec = 10, tv_nsec = 0\<rparr>"

definition demo_fresh :: Input where
  "demo_fresh = \<lparr>read_buf = [], frame = [0xFF, 0xD8, 0xFF, 0xD9],
                  frame_time = \<lparr>tv_sec = 9, tv_nsec = 800000000\<rparr>\<rparr>"

definition demo_stale :: Input where
  "demo_stale = \<lparr>read_buf = [], frame = [0xFF, 0xD8, 0xFF, 0xD9],
                  frame_time = \<lparr>tv_sec = 9, tv_nsec = 0\<rparr>\<rparr>"

definition demo_boundary :: Input where
  "demo_boundary = \<lparr>read_buf = [], frame = [0xFF, 0xD8, 0xFF, 0xD9],
                     frame_time = \<lparr>tv_sec = 9, tv_nsec = 500000000\<rparr>\<rparr>"

definition demo_just_fresh :: Input where
  "demo_just_fresh = \<lparr>read_buf = [], frame = [0xFF, 0xD8, 0xFF, 0xD9],
                       frame_time = \<lparr>tv_sec = 9, tv_nsec = 500000001\<rparr>\<rparr>"

definition demo_mux :: "MuxMode \<Rightarrow> int \<Rightarrow> Input list \<Rightarrow> mux" where
  "demo_mux m sel ins =
     \<lparr>inputs = ins, num_inputs = 3, mode = m, selected = sel,
      testcard = Some [0xFF, 0xD8, 0, 0xFF, 0xD9], testcard_size = 5, timeout_ms = 500\<rparr>"

section \<open>Control pipe\<close>

text \<open>
  A control line is the text of the C string handed to \<^verbatim>\<open>process_ctl_line\<close>, up
  to its terminating NUL. The two trimming loops: leading spaces and tabs are skipped;
  trailing line feeds, carriage returns and spaces are cut off.
\<close>

fun ltrim :: "string \<Rightarrow> string" where
  "ltrim (c # cs) = (if c = CHR '' '' \<or> c = CHR 0x09 then ltrim cs else c # cs)"
| "ltrim [] = []"

function rtrim :: "string \<Rightarrow> string" where
  "rtrim line =
     (if length line > 0 \<and>
         (last line = CHR 0x0A \<or> last line = CHR 0x0D \<or> last line = CHR '' '')
      then rtrim (butlast line) else line)"
  by pat_completeness auto
termination
  by (relation "measure length") auto

declare rtrim.simps [simp del]

text \<open>
  \<^verbatim>\<open>atoi\<close> of the C library: white space, an optional sign, then decimal digits up
  to the first character that is none; no digits give 0. Values that do not fit are
  treated as glibc does, where \<^verbatim>\<open>atoi\<close> is \<^verbatim>\<open>(int) strtol (nptr, NULL, 10)\<close>:
  clamped to the 64-bit \<^verbatim>\<open>long\<close>, then cut to 32 bits.
\<close>

definition isspace :: "char \<Rightarrow> bool" where
  "isspace c = (c = CHR '' '' \<or> (9 \<le> (of_char c :: nat) \<and> (of_char c :: nat) \<le> 13))"

definition isdigit :: "char \<Rightarrow> bool" where
  "isdigit c = (48 \<le> (of_char c :: nat) \<and> (of_char c :: nat) \<le> 57)"

fun atoi_digits :: "int \<Rightarrow> string \<Rightarrow> int" where
  "atoi_digits acc (c # cs) =
     (if isdigit c then atoi_digits (acc * 10 + (int (of_char c) - 48)) cs else acc)"
| "atoi_digits acc [] = acc"

definition atoi :: "string \<Rightarrow> int" where
  "atoi s =
     (let t = dropWhile isspace s;
          v = (case t of
                 [] \<Rightarrow> 0
               | c # r \<Rightarrow>
                   if c = CHR ''-'' then - atoi_digits 0 r
                   else if c = CHR ''+'' then atoi_digits 0 r
                   else atoi_digits 0 t)
      in signed_take_bit 31 (max (- (2 ^ 63)) (min (2 ^ 63 - 1) v)))"

text \<open>
  \<^verbatim>\<open>process_ctl_line\<close>. \<^verbatim>\<open>strncmp(line, "source ", 7) == 0\<close> holds exactly when
  the first seven characters of the line are \<^verbatim>\<open>"source "\<close>. The messages written to
  \<^verbatim>\<open>stderr\<close> are left out.
\<close>

definition process_ctl_line :: "string \<Rightarrow> mux \<Rightarrow> mux" where
  "process_ctl_line line0 st =
     (let line = rtrim (ltrim line0)
      in if length line = 0 then st
         else if take 7 line = ''source '' then
           (let n = atoi (drop 7 line)
            in if n \<ge> 0 \<and> n < num_inputs st then st\<lparr>mode := MODE_SOURCE, selected := n\<rparr>
               else st)
         else if line = ''testcard'' then st\<lparr>mode := MODE_TESTCARD, selected := - 1\<rparr>
         else if line = ''auto'' then st\<lparr>mode := MODE_AUTO, selected := - 1\<rparr>
         else st)"

text \<open>
  The grammar of the control lines, for stating what the parser does: the characters
  the two trimming loops remove, and the decimal numeral of a natural number.
\<close>

definition lead_ws :: "char set" where
  "lead_ws = {CHR '' '', CHR 0x09}"

definition trail_ws :: "char set" where
  "trail_ws = {CHR 0x0A, CHR 0x0D, CHR '' ''}"

definition digit_char :: "nat \<Rightarrow> char" where
  "digit_char d = ''0123456789'' ! d"

function decimal :: "nat \<Rightarrow> string" where
  "decimal n = (if n < 10 then [digit_char n] else decimal (n div 10) @ [digit_char (n mod 10)])"
  by pat_completeness auto
termination
  by (relation "measure id") auto

declare decimal.simps [simp del]

section \<open>Output and main loop\<close>

text \<open>
  One \<^verbatim>\<open>write\<close> call on standard output, as the loop of \<^verbatim>\<open>write_stdout\<close> sees
  it: \<open>w \<ge> 0\<close> bytes written; \<open>w < 0\<close> with \<^verbatim>\<open>EAGAIN\<close> or \<^verbatim>\<open>EWOULDBLOCK\<close>,
  together with what the 200 ms \<^verbatim>\<open>poll\<close> after it returns; \<open>w < 0\<close> with any other
  \<^verbatim>\<open>errno\<close>.
\<close>

datatype write_ev = Written nat | WouldBlock int | WriteError

text \<open>
  \<^verbatim>\<open>write_stdout\<close>, on the list of the calls' outcomes: \<open>Some True\<close> is return
  value 1, \<open>Some False\<close> is 0, and \<open>None\<close> says that the outcomes listed end
  before the loop does; \<open>tot\<close> is the variable \<^verbatim>\<open>total\<close>. The frame counter and the throughput message are left out.
\<close>

fun write_stdout :: "nat \<Rightarrow> nat \<Rightarrow> write_ev list \<Rightarrow> bool option" where
  "write_stdout len tot evs =
     (if tot < len then
        (case evs of
           [] \<Rightarrow> None
         | Written w # r \<Rightarrow> if w = 0 then Some False else write_stdout len (tot + w) r
         | WouldBlock p # r \<Rightarrow> if p \<le> 0 then Some False else write_stdout len tot r
         | WriteError # r \<Rightarrow> Some False)
      else Some True)"

declare write_stdout.simps [simp del]

text \<open>
  The state after the set-up part of \<^verbatim>\<open>main\<close>: the input count clamped to
  \<open>1..MAX_INPUTS\<close>, every input empty, mode and selection at their initial values.
  The testcard and the timeout come from the command line.
\<close>

definition empty_input :: Input where
  "empty_input = \<lparr>read_buf = [], frame = [], frame_time = \<lparr>tv_sec = 0, tv_nsec = 0\<rparr>\<rparr>"

definition startup :: "int \<Rightarrow> byte list option \<Rightarrow> nat \<Rightarrow> int \<Rightarrow> mux" where
  "startup n_inputs tc tc_size tmo =
     (let n1 = (if n_inputs < 1 then 1 else n_inputs);
          n2 = (if n1 > int MAX_INPUTS then int MAX_INPUTS else n1)
      in \<lparr>inputs = replicate MAX_INPUTS empty_input, num_inputs = n2, mode = MODE_AUTO,
          selected = - 1, testcard = tc, testcard_size = tc_size, timeout_ms = tmo\<rparr>)"

text \<open>
  What one pass of the main loop meets: whether \<^verbatim>\<open>on_signal\<close> ran during it, the
  number of descriptors in the poll set, the inputs found readable (index, the chunks
  their reads return, the clock in \<^verbatim>\<open>drain\<close>), the complete lines
  \<^verbatim>\<open>drain_ctl\<close> passes to \<^verbatim>\<open>process_ctl_line\<close>, the clock at the output step and
  the outcomes of the \<^verbatim>\<open>write\<close> calls.
\<close>

record iteration =
  it_signal :: bool
  it_nfds :: nat
  it_inputs :: "(nat \<times> byte list list \<times> timespec) list"
  it_ctl :: "string list"
  it_now :: timespec
  it_writes :: "write_ev list"

definition drain_input :: "mux \<Rightarrow> nat \<times> byte list list \<times> timespec \<Rightarrow> mux" where
  "drain_input st r =
     (case r of (i, chunks, now) \<Rightarrow>
        st\<lparr>inputs := (inputs st)[i := fst (drain (inputs st ! i) chunks now)]\<rparr>)"

text \<open>
  The two things that change the state while the loop runs: a control line, and a
  readable input being drained.
\<close>

datatype event = Control string | Readable nat "byte list list" timespec

fun apply_event :: "mux \<Rightarrow> event \<Rightarrow> mux" where
  "apply_event st (Control line) = process_ctl_line line st"
| "apply_event st (Readable i chunks now) = drain_input st (i, chunks, now)"

text \<open>
  The relation between \<^verbatim>\<open>mode\<close> and \<^verbatim>\<open>selected\<close>, and with it the facts about
  the input array that make the selected index a valid one.
\<close>

definition mode_inv :: "mux \<Rightarrow> bool" where
  "mode_inv st =
     ((mode st = MODE_SOURCE \<longrightarrow> 0 \<le> selected st \<and> selected st < num_inputs st) \<and>
      (mode st = MODE_AUTO \<or> mode st = MODE_TESTCARD \<longrightarrow> selected st = - 1))"

definition reach_inv :: "mux \<Rightarrow> bool" where
  "reach_inv st =
     (mode_inv st \<and> 1 \<le> num_inputs st \<and> num_inputs st \<le> int (length (inputs st)) \<and>
      length (inputs st) = MAX_INPUTS)"

text \<open>
  One pass through the body of \<^verbatim>\<open>while (running)\<close> in \<^verbatim>\<open>main\<close>: the drains,
  then the output step when it is due. The result is what the body leaves in
  \<^verbatim>\<open>running\<close> (it clears the flag when \<^verbatim>\<open>write_stdout\<close> fails), \<^verbatim>\<open>last_out\<close>
  and the state; \<open>None\<close> says that the write outcomes listed end inside
  \<^verbatim>\<open>write_stdout\<close>. With no descriptor open the body only sleeps.
\<close>

definition loop_body ::
  "int \<Rightarrow> timespec \<Rightarrow> mux \<Rightarrow> iteration \<Rightarrow> (bool \<times> timespec \<times> mux) option" where
  "loop_body interval_ms last_out st it =
     (if it_nfds it = 0 then Some (True, last_out, st)
      else
        (let st1 = foldl drain_input st (it_inputs it);
             st2 = foldl (\<lambda>s l. process_ctl_line l s) st1 (it_ctl it);
             now = it_now it;
             due = (tv_sec last_out = 0 \<or> elapsed_ms last_out now \<ge> real_of_int interval_ms);
             wrote = (if due then
                        (case choose_frame st2 now of
                           None \<Rightarrow> Some True
                         | Some (p, flen) \<Rightarrow>
                             if flen > 0 then write_stdout flen 0 (it_writes it) else Some True)
                      else Some True)
         in case wrote of
              None \<Rightarrow> None
            | Some ok \<Rightarrow> Some (ok, if due then now else last_out, st2)))"

text \<open>
  The loop \<^verbatim>\<open>while (running)\<close> with what follows it. The result is the exit status
  of the process: behind the loop there is the cleanup and \<^verbatim>\<open>return 0\<close>, nothing
  else. \<open>None\<close> says that the process is still running after the passes listed.
  The flag is cleared by the body or by \<^verbatim>\<open>on_signal\<close>, and read at the head of the
  loop.
\<close>

fun main_loop :: "int \<Rightarrow> bool \<Rightarrow> timespec \<Rightarrow> mux \<Rightarrow> iteration list \<Rightarrow> int option" where
  "main_loop interval_ms running last_out st [] = (if \<not> running then Some 0 else None)"
| "main_loop interval_ms running last_out st (it # rest) =
     (if \<not> running then Some 0
      else
        (case loop_body interval_ms last_out st it of
           None \<Rightarrow> None
         | Some (ok, last_out', st') \<Rightarrow>
             main_loop interval_ms (ok \<and> \<not> it_signal it) last_out' st' rest))"

text \<open>
  A \<^verbatim>\<open>write\<close> outcome that lets \<^verbatim>\<open>write_stdout\<close> go on: some bytes written, or
  a would-block after which \<^verbatim>\<open>poll\<close> reports the descriptor writable.
\<close>

fun write_ok_ev :: "write_ev \<Rightarrow> bool" where
  "write_ok_ev (Written w) = (0 < w)"
| "write_ok_ev (WouldBlock p) = (0 < p)"
| "write_ok_ev WriteError = False"

text \<open>
  Passes to run the loop on, with the testcard as the frame to write: one whose write
  fails with an error other than would-block, one during which a signal arrives while
  the write succeeds, and one in which nothing happens but a successful write.
\<close>

definition demo_pass :: "bool \<Rightarrow> write_ev list \<Rightarrow> iteration" where
  "demo_pass sig ws =
     \<lparr>it_signal = sig, it_nfds = 4, it_inputs = [], it_ctl = [],
      it_now = \<lparr>tv_sec = 10, tv_nsec = 0\<rparr>, it_writes = ws\<rparr>"





section \<open>Properties of the frame extraction\<close>

subsection \<open>The index scan computes the frames of the byte list\<close>

lemma drop_two:
  "pos + 1 < length buf \<Longrightarrow> drop pos buf = buf ! pos # buf ! (pos + 1) # drop (pos + 2) buf"
  by (simp add: Cons_nth_drop_Suc)

lemma drop_short:
  "\<not> pos + 1 < length buf \<Longrightarrow> drop pos buf = [] \<or> (\<exists>a. drop pos buf = [a])"
proof -
  assume "\<not> pos + 1 < length buf"
  then have "length (drop pos buf) \<le> 1" by simp
  then show ?thesis by (cases "drop pos buf") auto
qed

lemma scan_eoi_offset:
  "scan_eoi buf j = map_option (\<lambda>k. j + k) (eoi_offset (drop j buf))"
proof (induction buf j rule: scan_eoi.induct)
  case (1 buf j)
  show ?case
  proof (cases "j + 1 < length buf")
    case False
    from drop_short [OF False] have "eoi_offset (drop j buf) = None" by auto
    with False show ?thesis by (simp add: scan_eoi.simps [of buf j])
  next
    case inb: True
    note d = drop_two [OF inb]
    show ?thesis
    proof (cases "buf ! j = 0xFF \<and> buf ! (j + 1) = 0xD9")
      case True
      with inb d show ?thesis by (simp add: scan_eoi.simps [of buf j])
    next
      case False
      have "drop (j + 1) buf = buf ! (j + 1) # drop (j + 2) buf"
        using inb by (simp add: Cons_nth_drop_Suc)
      with "1.IH" [OF inb False] inb False d show ?thesis
        by (auto simp: scan_eoi.simps [of buf j] option.map_comp o_def)
    qed
  qed
qed

lemma last_fitting_Nil: "last_fitting [] = None"
  by (simp add: last_fitting_def)

lemma last_fitting_Cons:
  "last_fitting (f # fs) =
     (case last_fitting fs of
        None \<Rightarrow> if snd f \<le> MAX_FRAME_SIZE then Some f else None
      | Some g \<Rightarrow> Some g)"
  by (auto simp: last_fitting_def split: list.splits)

lemma last_jpeg_loop_frames:
  "last_jpeg_loop buf pos best =
     (case last_fitting (frames_from pos (drop pos buf)) of None \<Rightarrow> best | Some f \<Rightarrow> Some f)"
proof (induction buf pos best rule: last_jpeg_loop.induct)
  case (1 buf pos best)
  show ?case
  proof (cases "pos + 1 < length buf")
    case False
    from drop_short [OF False] have "frames_from pos (drop pos buf) = []" by auto
    with False show ?thesis
      by (simp add: last_jpeg_loop.simps [of buf pos] last_fitting_Nil)
  next
    case inb: True
    note d = drop_two [OF inb]
    show ?thesis
    proof (cases "buf ! pos = 0xFF \<and> buf ! (pos + 1) = 0xD8")
      case False
      have "drop (pos + 1) buf = buf ! (pos + 1) # drop (pos + 2) buf"
        using inb by (simp add: Cons_nth_drop_Suc)
      with "1.IH"(2) [OF inb False] inb False d show ?thesis
        by (auto simp: last_jpeg_loop.simps [of buf pos])
    next
      case soi: True
      show ?thesis
      proof (cases "eoi_offset (drop (pos + 2) buf)")
        case None
        then have "scan_eoi buf (pos + 2) = None" by (simp add: scan_eoi_offset)
        with inb soi d None show ?thesis
          by (simp add: last_jpeg_loop.simps [of buf pos] last_fitting_Nil)
      next
        case (Some k)
        then have sc: "scan_eoi buf (pos + 2) = Some (pos + 2 + k)"
          by (simp add: scan_eoi_offset)
        have e: "pos + 2 + k + 2 = pos + k + 4" "pos + k + 4 - pos = k + 4"
          by simp_all
        let ?best' = "if k + 4 \<le> MAX_FRAME_SIZE then Some (pos, k + 4) else best"
        have "last_jpeg_loop buf pos best =
                last_jpeg_loop buf (pos + 2 + k + 2)
                  (if pos + 2 + k + 2 - pos \<le> MAX_FRAME_SIZE
                   then Some (pos, pos + 2 + k + 2 - pos) else best)"
          by (subst last_jpeg_loop.simps [of buf pos best])
             (simp only: inb soi sc if_True option.case Let_def simp_thms)
        then have step: "last_jpeg_loop buf pos best = last_jpeg_loop buf (pos + k + 4) ?best'"
          unfolding e .
        have dd: "drop (Suc (Suc k)) (drop (Suc (Suc pos)) buf) = drop (pos + k + 4) buf"
          unfolding drop_drop by (rule arg_cong [of _ _ "\<lambda>n. drop n buf"]) simp
        have fr: "frames_from pos (drop pos buf) =
                    (pos, k + 4) # frames_from (pos + k + 4) (drop (pos + k + 4) buf)"
          unfolding d using soi Some by (simp del: drop_drop add: dd)
        have ih: "last_jpeg_loop buf (pos + k + 4) ?best' =
                    (case last_fitting (frames_from (pos + k + 4) (drop (pos + k + 4) buf)) of
                       None \<Rightarrow> ?best' | Some f \<Rightarrow> Some f)"
          using "1.IH"(1) [OF inb soi sc refl] unfolding e .
        show ?thesis
          by (simp only: step ih fr last_fitting_Cons) (simp split: option.splits)
      qed
    qed
  qed
qed

lemma last_jpeg_frames: "last_jpeg buf = last_fitting (complete_frames buf)"
  by (simp add: last_jpeg_def complete_frames_def last_jpeg_loop_frames split: option.splits)

lemma eoi_offset_skip:
  "a \<noteq> 0xFF \<Longrightarrow> eoi_offset (a # xs) = map_option Suc (eoi_offset xs)"
  by (cases xs) simp_all

lemma eoi_offset_zeros:
  "eoi_offset (replicate n 0 @ xs) = map_option (\<lambda>k. n + k) (eoi_offset xs)"
  by (induction n) (simp_all add: eoi_offset_skip option.map_comp o_def option.map_ident)

lemma frames_from_long_frame:
  "frames_from off (0xFF # 0xD8 # replicate n 0 @ 0xFF # 0xD9 # rest) =
     (off, n + 4) # frames_from (off + n + 4) rest"
  by (simp add: eoi_offset_zeros)

lemma frames_from_short_frame:
  "frames_from off (0xFF # 0xD8 # 0xFF # 0xD9 # rest) = (off, 4) # frames_from (off + 4) rest"
  by simp

lemma last_fitting_index:
  assumes "k < length fs" and "snd (fs ! k) \<le> MAX_FRAME_SIZE"
    and "\<forall>m. k < m \<and> m < length fs \<longrightarrow> MAX_FRAME_SIZE < snd (fs ! m)"
  shows "last_fitting fs = Some (fs ! k)"
  using assms
proof (induction fs arbitrary: k)
  case Nil
  then show ?case by simp
next
  case (Cons f fs)
  show ?case
  proof (cases k)
    case 0
    have "filter (\<lambda>f. snd f \<le> MAX_FRAME_SIZE) fs = []"
    proof (rule filter_False, rule ballI)
      fix g assume "g \<in> set fs"
      then obtain m where "m < length fs" "fs ! m = g" by (auto simp: in_set_conv_nth)
      with Cons.prems(3) 0 have "MAX_FRAME_SIZE < snd ((f # fs) ! Suc m)" by auto
      with \<open>fs ! m = g\<close> show "\<not> snd g \<le> MAX_FRAME_SIZE" by simp
    qed
    then have "last_fitting fs = None" by (simp add: last_fitting_def)
    with 0 Cons.prems(2) show ?thesis by (simp add: last_fitting_Cons)
  next
    case (Suc k')
    have "last_fitting fs = Some (fs ! k')"
    proof (rule Cons.IH)
      show "k' < length fs" using Cons.prems(1) Suc by simp
      show "snd (fs ! k') \<le> MAX_FRAME_SIZE" using Cons.prems(2) Suc by simp
      show "\<forall>m. k' < m \<and> m < length fs \<longrightarrow> MAX_FRAME_SIZE < snd (fs ! m)"
      proof (intro allI impI)
        fix m assume "k' < m \<and> m < length fs"
        with Cons.prems(3) Suc have "MAX_FRAME_SIZE < snd ((f # fs) ! Suc m)" by auto
        then show "MAX_FRAME_SIZE < snd (fs ! m)" by simp
      qed
    qed
    with Suc show ?thesis by (simp add: last_fitting_Cons)
  qed
qed

lemma last_fitting_none: "last_fitting fs = None \<longleftrightarrow> (\<forall>f \<in> set fs. MAX_FRAME_SIZE < snd f)"
proof -
  have "last_fitting fs = None \<longleftrightarrow> filter (\<lambda>f. snd f \<le> MAX_FRAME_SIZE) fs = []"
    by (simp add: last_fitting_def split: list.splits)
  then show ?thesis by (simp add: filter_empty_conv not_le)
qed

text \<open>
  Claim C1, as amended. For every buffer with at least two complete frames,
  \<^verbatim>\<open>last_jpeg\<close> returns the last complete frame whose length is at most
  \<^verbatim>\<open>MAX_FRAME_SIZE\<close> (nothing when every frame is longer); when the last complete
  frame itself fits the bound, it is exactly that frame, offset and length, and never
  an earlier one.
\<close>
theorem last_jpeg_last_fitting_frame:
  assumes "2 \<le> length (complete_frames buf)"
  shows "last_jpeg buf = last_fitting (complete_frames buf) \<and>
         (snd (last (complete_frames buf)) \<le> MAX_FRAME_SIZE \<longrightarrow>
            last_jpeg buf = Some (last (complete_frames buf)))"
proof -
  let ?fs = "complete_frames buf"
  have eq: "last_jpeg buf = last_fitting ?fs" by (rule last_jpeg_frames)
  have "last_jpeg buf = Some (last ?fs)" if fit: "snd (last ?fs) \<le> MAX_FRAME_SIZE"
  proof -
    from assms have ne: "?fs \<noteq> []" by auto
    then have l: "last ?fs = ?fs ! (length ?fs - 1)" by (rule last_conv_nth)
    have "last_fitting ?fs = Some (?fs ! (length ?fs - 1))"
      using ne fit l by (intro last_fitting_index) auto
    with eq l show ?thesis by simp
  qed
  with eq show ?thesis by blast
qed

text \<open>Two frames of 5 and 6 bytes and the start of a third: the second is returned.\<close>

theorem last_jpeg_last_fitting_frame_witness:
  "2 \<le> length (complete_frames [0xFF, 0xD8, 1, 0xFF, 0xD9, 0xFF, 0xD8, 2, 3, 0xFF, 0xD9, 0xFF, 0xD8, 7]) \<and>
   complete_frames [0xFF, 0xD8, 1, 0xFF, 0xD9, 0xFF, 0xD8, 2, 3, 0xFF, 0xD9, 0xFF, 0xD8, 7] = [(0, 5), (5, 6)] \<and>
   last_jpeg [0xFF, 0xD8, 1, 0xFF, 0xD9, 0xFF, 0xD8, 2, 3, 0xFF, 0xD9, 0xFF, 0xD8, 7] = Some (5, 6)"
proof -
  let ?buf = "[0xFF, 0xD8, 1, 0xFF, 0xD9, 0xFF, 0xD8, 2, 3, 0xFF, 0xD9, 0xFF, 0xD8, 7] :: byte list"
  have fs: "complete_frames ?buf = [(0, 5), (5, 6)]"
    by (simp add: complete_frames_def)
  then have two: "2 \<le> length (complete_frames ?buf)" by simp
  from last_jpeg_last_fitting_frame [OF two] fs
  have "last_jpeg ?buf = Some (5, 6)" by (simp add: last_fitting_def MAX_FRAME_SIZE_def)
  with fs two show ?thesis by simp
qed

text \<open>
  The claim as first stated fails when the last complete frame is too long: a 4-byte
  frame followed by a frame of 1048577 bytes (one more than \<^verbatim>\<open>MAX_FRAME_SIZE\<close>),
  1048581 bytes in all, which fits the read buffer. The earlier frame is returned.
\<close>

theorem last_jpeg_earlier_frame_counterexample:
  "complete_frames ([0xFF, 0xD8, 0xFF, 0xD9, 0xFF, 0xD8] @ replicate 1048573 0 @ [0xFF, 0xD9])
     = [(0, 4), (4, 1048577)] \<and>
   last_jpeg ([0xFF, 0xD8, 0xFF, 0xD9, 0xFF, 0xD8] @ replicate 1048573 0 @ [0xFF, 0xD9])
     = Some (0, 4) \<and>
   last_jpeg ([0xFF, 0xD8, 0xFF, 0xD9, 0xFF, 0xD8] @ replicate 1048573 0 @ [0xFF, 0xD9])
     \<noteq> Some (last (complete_frames
          ([0xFF, 0xD8, 0xFF, 0xD9, 0xFF, 0xD8] @ replicate 1048573 0 @ [0xFF, 0xD9])))"
proof -
  let ?buf = "[0xFF, 0xD8, 0xFF, 0xD9, 0xFF, 0xD8] @ replicate 1048573 0 @ [0xFF, 0xD9] :: byte list"
  have "?buf = 0xFF # 0xD8 # 0xFF # 0xD9 # 0xFF # 0xD8 # replicate 1048573 0 @ 0xFF # 0xD9 # []"
    by simp
  then have fs: "complete_frames ?buf = [(0, 4), (4, 1048577)]"
    by (simp only: complete_frames_def frames_from_short_frame frames_from_long_frame) simp
  have r: "last_jpeg ?buf = Some (0, 4)"
    unfolding last_jpeg_frames fs by (simp add: last_fitting_def MAX_FRAME_SIZE_def)
  have "last_jpeg ?buf \<noteq> Some (last (complete_frames ?buf))"
    unfolding r fs by simp
  with fs r show ?thesis by simp
qed

lemma last_fitting_Some_index:
  "last_fitting fs = Some f \<Longrightarrow>
     \<exists>m<length fs. fs ! m = f \<and> snd f \<le> MAX_FRAME_SIZE \<and>
       (\<forall>m'. m < m' \<and> m' < length fs \<longrightarrow> MAX_FRAME_SIZE < snd (fs ! m'))"
proof (induction fs)
  case Nil
  then show ?case by (simp add: last_fitting_Nil)
next
  case (Cons g fs)
  show ?case
  proof (cases "last_fitting fs")
    case None
    with Cons.prems have fg: "f = g" "snd g \<le> MAX_FRAME_SIZE"
      by (auto simp: last_fitting_Cons split: if_splits)
    from None have "\<forall>h \<in> set fs. MAX_FRAME_SIZE < snd h" by (simp add: last_fitting_none)
    then have "\<forall>m'. 0 < m' \<and> m' < length (g # fs) \<longrightarrow> MAX_FRAME_SIZE < snd ((g # fs) ! m')"
      by (auto simp: nth_Cons split: nat.splits)
    with fg show ?thesis by (intro exI [of _ 0]) simp
  next
    case (Some h)
    with Cons.prems have "f = h" by (simp add: last_fitting_Cons)
    with Some Cons.IH obtain m where m: "m < length fs" "fs ! m = f" "snd f \<le> MAX_FRAME_SIZE"
      "\<forall>m'. m < m' \<and> m' < length fs \<longrightarrow> MAX_FRAME_SIZE < snd (fs ! m')"
      by blast
    have "\<forall>m'. Suc m < m' \<and> m' < length (g # fs) \<longrightarrow> MAX_FRAME_SIZE < snd ((g # fs) ! m')"
    proof (intro allI impI)
      fix m' assume a: "Suc m < m' \<and> m' < length (g # fs)"
      then obtain n where n: "m' = Suc n" by (cases m') auto
      with a m(4) show "MAX_FRAME_SIZE < snd ((g # fs) ! m')" by simp
    qed
    with m show ?thesis by (intro exI [of _ "Suc m"]) simp
  qed
qed

lemma last_fitting_remove_oversized:
  assumes "i < length fs" and "MAX_FRAME_SIZE < snd (fs ! i)"
  shows "last_fitting (take i fs @ drop (Suc i) fs) = last_fitting fs"
proof -
  from assms(1) have "fs = take i fs @ fs ! i # drop (Suc i) fs"
    by (rule id_take_nth_drop)
  then have "filter (\<lambda>f. snd f \<le> MAX_FRAME_SIZE) fs =
             filter (\<lambda>f. snd f \<le> MAX_FRAME_SIZE) (take i fs @ fs ! i # drop (Suc i) fs)"
    by simp
  also have "\<dots> = filter (\<lambda>f. snd f \<le> MAX_FRAME_SIZE) (take i fs @ drop (Suc i) fs)"
    using assms(2) by simp
  finally show ?thesis by (simp add: last_fitting_def)
qed

text \<open>
  Claim C2. A complete frame (number \<open>i\<close>) that is longer than
  \<^verbatim>\<open>MAX_FRAME_SIZE\<close> is skipped, whatever else the buffer holds: it is never the
  result, and the result is what it would be with that frame absent from the frames
  of the buffer; when every frame is too long the result is nothing. The scan goes on
  behind the frame: if a later complete frame (number \<open>k\<close>) fits the bound, the
  result is a fitting frame at or behind \<open>k\<close>, namely the last fitting one; it is
  frame \<open>k\<close> itself when no fitting frame follows it.
\<close>
theorem last_jpeg_skips_oversized:
  assumes "i < length (complete_frames buf)"
    and "MAX_FRAME_SIZE < snd (complete_frames buf ! i)"
  shows "last_jpeg buf \<noteq> Some (complete_frames buf ! i) \<and>
         last_jpeg buf =
           last_fitting (take i (complete_frames buf) @ drop (Suc i) (complete_frames buf)) \<and>
         ((\<forall>m. m < length (complete_frames buf) \<longrightarrow>
             MAX_FRAME_SIZE < snd (complete_frames buf ! m)) \<longrightarrow>
          last_jpeg buf = None) \<and>
         (\<forall>k. i < k \<and> k < length (complete_frames buf) \<and>
              snd (complete_frames buf ! k) \<le> MAX_FRAME_SIZE \<longrightarrow>
            (\<exists>m. k \<le> m \<and> m < length (complete_frames buf) \<and>
                 last_jpeg buf = Some (complete_frames buf ! m) \<and>
                 snd (complete_frames buf ! m) \<le> MAX_FRAME_SIZE \<and>
                 (\<forall>m'. m < m' \<and> m' < length (complete_frames buf) \<longrightarrow>
                    MAX_FRAME_SIZE < snd (complete_frames buf ! m'))) \<and>
            ((\<forall>m. k < m \<and> m < length (complete_frames buf) \<longrightarrow>
                MAX_FRAME_SIZE < snd (complete_frames buf ! m)) \<longrightarrow>
             last_jpeg buf = Some (complete_frames buf ! k)))"
proof -
  let ?fs = "complete_frames buf"
  have eq: "last_jpeg buf = last_fitting ?fs" by (rule last_jpeg_frames)
  have skip: "last_jpeg buf \<noteq> Some (?fs ! i)"
  proof
    assume "last_jpeg buf = Some (?fs ! i)"
    with eq have "last_fitting ?fs = Some (?fs ! i)" by simp
    from last_fitting_Some_index [OF this] have "snd (?fs ! i) \<le> MAX_FRAME_SIZE" by blast
    with assms(2) show False by simp
  qed
  have without: "last_jpeg buf = last_fitting (take i ?fs @ drop (Suc i) ?fs)"
    unfolding eq by (rule last_fitting_remove_oversized [OF assms, symmetric])
  have none: "last_jpeg buf = None"
    if all: "\<forall>m. m < length ?fs \<longrightarrow> MAX_FRAME_SIZE < snd (?fs ! m)"
  proof -
    have "\<forall>f \<in> set ?fs. MAX_FRAME_SIZE < snd f"
    proof
      fix f assume "f \<in> set ?fs"
      then obtain m where "m < length ?fs" and "?fs ! m = f"
        by (auto simp: in_set_conv_nth)
      with all show "MAX_FRAME_SIZE < snd f" by blast
    qed
    then show ?thesis unfolding eq by (simp add: last_fitting_none)
  qed
  have later: "(\<exists>m. k \<le> m \<and> m < length ?fs \<and> last_jpeg buf = Some (?fs ! m) \<and>
                 snd (?fs ! m) \<le> MAX_FRAME_SIZE \<and>
                 (\<forall>m'. m < m' \<and> m' < length ?fs \<longrightarrow> MAX_FRAME_SIZE < snd (?fs ! m'))) \<and>
               ((\<forall>m. k < m \<and> m < length ?fs \<longrightarrow> MAX_FRAME_SIZE < snd (?fs ! m)) \<longrightarrow>
                last_jpeg buf = Some (?fs ! k))"
    if k: "i < k \<and> k < length ?fs \<and> snd (?fs ! k) \<le> MAX_FRAME_SIZE" for k
  proof -
    from k have kl: "k < length ?fs" and kf: "snd (?fs ! k) \<le> MAX_FRAME_SIZE" by simp_all
    from kl have "?fs ! k \<in> set ?fs" by simp
    with kf have "last_fitting ?fs \<noteq> None"
      by (auto simp: last_fitting_none not_less)
    then obtain f where f: "last_fitting ?fs = Some f" by auto
    from last_fitting_Some_index [OF f]
    obtain m where m: "m < length ?fs" "?fs ! m = f" "snd f \<le> MAX_FRAME_SIZE"
      "\<forall>m'. m < m' \<and> m' < length ?fs \<longrightarrow> MAX_FRAME_SIZE < snd (?fs ! m')"
      by blast
    have km: "k \<le> m"
    proof (rule ccontr)
      assume "\<not> k \<le> m"
      with m(4) kl have "MAX_FRAME_SIZE < snd (?fs ! k)" by simp
      with kf show False by simp
    qed
    have ex: "\<exists>m. k \<le> m \<and> m < length ?fs \<and> last_jpeg buf = Some (?fs ! m) \<and>
                snd (?fs ! m) \<le> MAX_FRAME_SIZE \<and>
                (\<forall>m'. m < m' \<and> m' < length ?fs \<longrightarrow> MAX_FRAME_SIZE < snd (?fs ! m'))"
      using km m eq f by (intro exI [of _ m]) simp
    have lastk: "last_jpeg buf = Some (?fs ! k)"
      if "\<forall>m. k < m \<and> m < length ?fs \<longrightarrow> MAX_FRAME_SIZE < snd (?fs ! m)"
      unfolding eq using kl kf that by (rule last_fitting_index)
    from ex lastk show ?thesis by blast
  qed
  from skip without none later show ?thesis by blast
qed

lemma complete_frames_oversized_then_small:
  "complete_frames ([0xFF, 0xD8] @ replicate 1048573 0 @ [0xFF, 0xD9, 0xFF, 0xD8, 0xFF, 0xD9])
     = [(0, 1048577), (1048577, 4)]"
proof -
  have "[0xFF, 0xD8] @ replicate 1048573 0 @ [0xFF, 0xD9, 0xFF, 0xD8, 0xFF, 0xD9] =
        0xFF # 0xD8 # replicate 1048573 0 @ 0xFF # 0xD9 # 0xFF # 0xD8 # 0xFF # 0xD9 # ([] :: byte list)"
    by simp
  then show ?thesis
    by (simp only: complete_frames_def frames_from_long_frame frames_from_short_frame) simp
qed

lemma complete_frames_oversized_only:
  "complete_frames ([0xFF, 0xD8] @ replicate 1048573 0 @ [0xFF, 0xD9]) = [(0, 1048577)]"
proof -
  have "[0xFF, 0xD8] @ replicate 1048573 0 @ [0xFF, 0xD9] =
        0xFF # 0xD8 # replicate 1048573 0 @ 0xFF # 0xD9 # ([] :: byte list)"
    by simp
  then show ?thesis
    by (simp only: complete_frames_def frames_from_long_frame) simp
qed

text \<open>
  An oversized frame followed by a frame of four bytes: the second is returned. The
  oversized frame alone: nothing is returned.
\<close>

theorem last_jpeg_skips_oversized_witness:
  "complete_frames ([0xFF, 0xD8] @ replicate 1048573 0 @ [0xFF, 0xD9, 0xFF, 0xD8, 0xFF, 0xD9])
     = [(0, 1048577), (1048577, 4)] \<and>
   MAX_FRAME_SIZE < 1048577 \<and> 4 \<le> MAX_FRAME_SIZE \<and>
   last_jpeg ([0xFF, 0xD8] @ replicate 1048573 0 @ [0xFF, 0xD9, 0xFF, 0xD8, 0xFF, 0xD9])
     = Some (1048577, 4) \<and>
   complete_frames ([0xFF, 0xD8] @ replicate 1048573 0 @ [0xFF, 0xD9]) = [(0, 1048577)] \<and>
   last_jpeg ([0xFF, 0xD8] @ replicate 1048573 0 @ [0xFF, 0xD9]) = None"
proof -
  let ?buf = "[0xFF, 0xD8] @ replicate 1048573 0 @ [0xFF, 0xD9, 0xFF, 0xD8, 0xFF, 0xD9] :: byte list"
  let ?one = "[0xFF, 0xD8] @ replicate 1048573 0 @ [0xFF, 0xD9] :: byte list"
  note fs = complete_frames_oversized_then_small
  note os = complete_frames_oversized_only
  have h1: "0 < length (complete_frames ?buf)" unfolding fs by simp
  have h2: "MAX_FRAME_SIZE < snd (complete_frames ?buf ! 0)"
    unfolding fs by (simp add: MAX_FRAME_SIZE_def)
  have k: "0 < (1::nat) \<and> 1 < length (complete_frames ?buf) \<and>
           snd (complete_frames ?buf ! 1) \<le> MAX_FRAME_SIZE"
    unfolding fs by (simp add: MAX_FRAME_SIZE_def)
  have h5: "\<forall>m. 1 < m \<and> m < length (complete_frames ?buf) \<longrightarrow>
              MAX_FRAME_SIZE < snd (complete_frames ?buf ! m)"
    unfolding fs by simp
  from last_jpeg_skips_oversized [OF h1 h2] k h5
  have "last_jpeg ?buf = Some (complete_frames ?buf ! 1)" by blast
  then have a: "last_jpeg ?buf = Some (1048577, 4)" unfolding fs by simp
  have g1: "0 < length (complete_frames ?one)" unfolding os by simp
  have g2: "MAX_FRAME_SIZE < snd (complete_frames ?one ! 0)"
    unfolding os by (simp add: MAX_FRAME_SIZE_def)
  have g3: "\<forall>m. m < length (complete_frames ?one) \<longrightarrow>
              MAX_FRAME_SIZE < snd (complete_frames ?one ! m)"
    unfolding os by (simp add: MAX_FRAME_SIZE_def)
  from last_jpeg_skips_oversized [OF g1 g2] g3
  have b: "last_jpeg ?one = None" by blast
  from a b fs os show ?thesis by (simp add: MAX_FRAME_SIZE_def)
qed

lemma last_jpeg_loop_region:
  "region_ok buf best \<Longrightarrow> region_ok buf (last_jpeg_loop buf pos best)"
proof (induction buf pos best rule: last_jpeg_loop.induct)
  case (1 buf pos best)
  show ?case
  proof (cases "pos + 1 < length buf")
    case False
    with "1.prems" show ?thesis by (simp add: last_jpeg_loop.simps [of buf pos])
  next
    case inb: True
    show ?thesis
    proof (cases "buf ! pos = 0xFF \<and> buf ! (pos + 1) = 0xD8")
      case False
      with inb "1.IH"(2) "1.prems" show ?thesis
        by (auto simp: last_jpeg_loop.simps [of buf pos])
    next
      case soi: True
      show ?thesis
      proof (cases "scan_eoi buf (pos + 2)")
        case None
        with inb soi "1.prems" show ?thesis
          by (simp add: last_jpeg_loop.simps [of buf pos])
      next
        case (Some j)
        from scan_eoi_bounds [OF Some] have jb: "pos + 2 \<le> j" "j + 1 < length buf"
          by simp_all
        let ?best' = "if (j + 2) - pos \<le> MAX_FRAME_SIZE then Some (pos, (j + 2) - pos) else best"
        from jb "1.prems" have "region_ok buf ?best'"
          by (auto simp: region_ok_def)
        from "1.IH"(1) [OF inb soi Some refl this]
        have "region_ok buf (last_jpeg_loop buf (j + 2) ?best')" .
        moreover have "last_jpeg_loop buf pos best = last_jpeg_loop buf (j + 2) ?best'"
          by (subst last_jpeg_loop.simps [of buf pos best])
             (simp only: inb soi Some if_True option.case Let_def simp_thms)
        ultimately show ?thesis by simp
      qed
    qed
  qed
qed

lemma last_jpeg_region:
  "last_jpeg buf = Some (off, len) \<Longrightarrow>
     4 \<le> len \<and> len \<le> MAX_FRAME_SIZE \<and> off + len \<le> length buf"
  using last_jpeg_loop_region [of buf None 0]
  by (simp add: last_jpeg_def region_ok_def)

lemma drain_frame_size:
  "frame_size inp \<le> MAX_FRAME_SIZE \<Longrightarrow> frame_size (fst (drain inp chunks now)) \<le> MAX_FRAME_SIZE"
  by (auto simp: drain_def Let_def split: prod.splits option.splits dest: last_jpeg_region)

text \<open>
  Claim C10. A region returned by \<^verbatim>\<open>last_jpeg\<close> is not empty, is at most
  \<^verbatim>\<open>MAX_FRAME_SIZE\<close> bytes long and lies inside the first \<^verbatim>\<open>buflen\<close> bytes
  of the buffer, so the \<^verbatim>\<open>memcpy\<close> in \<^verbatim>\<open>drain\<close> reads \<open>len\<close> bytes that are
  there and the frame cache never holds more than \<^verbatim>\<open>MAX_FRAME_SIZE\<close> bytes.
\<close>
theorem last_jpeg_region_in_bounds:
  "(last_jpeg buf = Some (off, len) \<longrightarrow>
      0 < len \<and> len \<le> MAX_FRAME_SIZE \<and> off + len \<le> length buf \<and>
      length (take len (drop off buf)) = len) \<and>
   (frame_size inp \<le> MAX_FRAME_SIZE \<longrightarrow>
      frame_size (fst (drain inp chunks now)) \<le> MAX_FRAME_SIZE)"
proof (intro conjI impI)
  assume r: "last_jpeg buf = Some (off, len)"
  from last_jpeg_region [OF r]
  show "0 < len" and "len \<le> MAX_FRAME_SIZE" and "off + len \<le> length buf"
    and "length (take len (drop off buf)) = len"
    by (auto simp: min_def)
next
  assume "frame_size inp \<le> MAX_FRAME_SIZE"
  then show "frame_size (fst (drain inp chunks now)) \<le> MAX_FRAME_SIZE"
    by (rule drain_frame_size)
qed

lemma drain_read_small:
  "length rb + length c < READ_BUF_SIZE \<Longrightarrow> c \<noteq> [] \<Longrightarrow> drain_read rb [c] = (rb @ c, [])"
  by (simp add: drain_read.simps [of rb "[c]"] drain_read.simps [of "rb @ c" "[]"] size_sub_def Let_def READ_BUF_SIZE_def)

theorem last_jpeg_region_in_bounds_witness:
  "last_jpeg [0xFF, 0xD8, 1, 0xFF, 0xD9, 0xFF, 0xD8, 2, 3, 0xFF, 0xD9, 0xFF, 0xD8, 7] = Some (5, 6) \<and>
   6 \<le> MAX_FRAME_SIZE \<and>
   5 + 6 \<le> length [0xFF, 0xD8, 1, 0xFF, 0xD9, 0xFF, 0xD8, 2, 3, 0xFF, 0xD9, 0xFF, 0xD8, 7 :: byte] \<and>
   frame_size empty_input \<le> MAX_FRAME_SIZE \<and>
   frame (fst (drain empty_input [[0xFF, 0xD8, 1, 0xFF, 0xD9, 0xFF, 0xD8, 2, 3, 0xFF, 0xD9, 0xFF, 0xD8, 7]]
               \<lparr>tv_sec = 5, tv_nsec = 0\<rparr>)) = [0xFF, 0xD8, 2, 3, 0xFF, 0xD9] \<and>
   frame_size (fst (drain empty_input [[0xFF, 0xD8, 1, 0xFF, 0xD9, 0xFF, 0xD8, 2, 3, 0xFF, 0xD9, 0xFF, 0xD8, 7]]
               \<lparr>tv_sec = 5, tv_nsec = 0\<rparr>)) \<le> MAX_FRAME_SIZE"
proof -
  let ?buf = "[0xFF, 0xD8, 1, 0xFF, 0xD9, 0xFF, 0xD8, 2, 3, 0xFF, 0xD9, 0xFF, 0xD8, 7] :: byte list"
  let ?now = "\<lparr>tv_sec = 5, tv_nsec = 0\<rparr>"
  have r: "last_jpeg ?buf = Some (5, 6)"
    by (simp add: last_jpeg_def last_jpeg_loop.simps scan_eoi.simps MAX_FRAME_SIZE_def)
  have e: "frame_size empty_input \<le> MAX_FRAME_SIZE" by (simp add: empty_input_def)
  have d: "drain_read [] [?buf] = (?buf, [])"
    using drain_read_small [of "[]" ?buf] by (simp add: READ_BUF_SIZE_def)
  have f: "frame (fst (drain empty_input [?buf] ?now)) = [0xFF, 0xD8, 2, 3, 0xFF, 0xD9]"
    by (simp add: drain_def empty_input_def d r)
  from last_jpeg_region_in_bounds [of ?buf 5 6 empty_input "[?buf]" ?now] r e f
  show ?thesis by simp
qed

section \<open>Properties of the frame selection\<close>

lemma elapsed_ms_ns: "elapsed_ms a b = real_of_int (elapsed_ns a b) / 1000000"
  by (simp add: elapsed_ms_def elapsed_ns_def field_simps)

lemma elapsed_ms_less_iff:
  "elapsed_ms a b < real_of_int T \<longleftrightarrow> elapsed_ns a b < T * 1000000"
proof -
  have "elapsed_ms a b < real_of_int T \<longleftrightarrow>
        real_of_int (elapsed_ns a b) < real_of_int (T * 1000000)"
    by (simp add: elapsed_ms_ns field_simps)
  then show ?thesis by (simp only: of_int_less_iff)
qed

lemma use_testcard_not_input: "use_testcard st \<noteq> Some (InputFrame j, l)"
  by (simp add: use_testcard_def)

lemma auto_scan_pick:
  "0 \<le> i \<Longrightarrow> i \<le> n \<Longrightarrow> recent st now (inputs st ! nat i) \<Longrightarrow>
   (\<forall>j. i < j \<and> j \<le> n \<longrightarrow> \<not> recent st now (inputs st ! nat j)) \<Longrightarrow>
   auto_scan st now n = Some (InputFrame (nat i), frame_size (inputs st ! nat i))"
proof (induction st now n rule: auto_scan.induct)
  case (1 st now n)
  from "1.prems" have n0: "0 \<le> n" by simp
  show ?case
  proof (cases "i = n")
    case True
    with "1.prems" n0 show ?thesis by (simp add: auto_scan.simps [of st now n] Let_def)
  next
    case False
    with "1.prems" have lt: "i < n" by simp
    with "1.prems" have nr: "\<not> recent st now (inputs st ! nat n)" by simp
    have "auto_scan st now (n - 1) = Some (InputFrame (nat i), frame_size (inputs st ! nat i))"
      using "1.prems" lt by (intro "1.IH" [OF n0 refl nr]) auto
    with n0 nr show ?thesis by (simp add: auto_scan.simps [of st now n] Let_def)
  qed
qed

lemma auto_scan_none:
  "(\<forall>j. 0 \<le> j \<and> j \<le> n \<longrightarrow> \<not> recent st now (inputs st ! nat j)) \<Longrightarrow>
   auto_scan st now n = use_testcard st"
proof (induction st now n rule: auto_scan.induct)
  case (1 st now n)
  show ?case
  proof (cases "0 \<le> n")
    case False
    then show ?thesis by (simp add: auto_scan.simps [of st now n])
  next
    case True
    with "1.prems" have nr: "\<not> recent st now (inputs st ! nat n)" by simp
    have "auto_scan st now (n - 1) = use_testcard st"
      using "1.prems" by (intro "1.IH" [OF True refl nr]) auto
    with True nr show ?thesis by (simp add: auto_scan.simps [of st now n] Let_def)
  qed
qed

lemma auto_scan_input:
  "auto_scan st now n = Some (InputFrame j, l) \<Longrightarrow>
     int j \<le> n \<and> recent st now (inputs st ! j) \<and> l = frame_size (inputs st ! j)"
proof (induction st now n rule: auto_scan.induct)
  case (1 st now n)
  show ?case
  proof (cases "0 \<le> n")
    case False
    with "1.prems" show ?thesis
      by (simp add: auto_scan.simps [of st now n] use_testcard_not_input)
  next
    case True
    show ?thesis
    proof (cases "recent st now (inputs st ! nat n)")
      case r: True
      with True "1.prems" show ?thesis
        by (auto simp: auto_scan.simps [of st now n] Let_def)
    next
      case nr: False
      with True "1.prems" have "auto_scan st now (n - 1) = Some (InputFrame j, l)"
        by (simp add: auto_scan.simps [of st now n] Let_def)
      from "1.IH" [OF True refl nr this] show ?thesis by simp
    qed
  qed
qed

lemma choose_frame_input:
  "choose_frame st now = Some (InputFrame j, l) \<Longrightarrow>
     recent st now (inputs st ! j) \<and> l = frame_size (inputs st ! j)"
  by (auto simp: choose_frame_def Let_def use_testcard_not_input
           split: if_splits dest: auto_scan_input)

text \<open>
  Claim C4. In mode \<^verbatim>\<open>MODE_AUTO\<close>, \<^verbatim>\<open>choose_frame\<close> returns the frame of the
  highest-index input below \<open>num_inputs\<close> that has a cached frame younger than the
  timeout, and the testcard result when no input has one.
\<close>
theorem choose_frame_auto_highest_recent:
  assumes "mode st = MODE_AUTO"
  shows "(\<forall>i. 0 \<le> i \<and> i < num_inputs st \<and> recent st now (inputs st ! nat i) \<and>
              (\<forall>j. i < j \<and> j < num_inputs st \<longrightarrow> \<not> recent st now (inputs st ! nat j)) \<longrightarrow>
              choose_frame st now = Some (InputFrame (nat i), frame_size (inputs st ! nat i))) \<and>
         ((\<forall>j. 0 \<le> j \<and> j < num_inputs st \<longrightarrow> \<not> recent st now (inputs st ! nat j)) \<longrightarrow>
              choose_frame st now = use_testcard st)"
proof -
  from assms have cf: "choose_frame st now = auto_scan st now (num_inputs st - 1)"
    by (simp add: choose_frame_def)
  have pick: "choose_frame st now = Some (InputFrame (nat i), frame_size (inputs st ! nat i))"
    if "0 \<le> i \<and> i < num_inputs st \<and> recent st now (inputs st ! nat i) \<and>
        (\<forall>j. i < j \<and> j < num_inputs st \<longrightarrow> \<not> recent st now (inputs st ! nat j))" for i
    unfolding cf using that by (intro auto_scan_pick) auto
  have none: "choose_frame st now = use_testcard st"
    if "\<forall>j. 0 \<le> j \<and> j < num_inputs st \<longrightarrow> \<not> recent st now (inputs st ! nat j)"
    unfolding cf using that by (intro auto_scan_none) auto
  from pick none show ?thesis by blast
qed

lemma demo_recent [simp]:
  "recent (demo_mux m sel ins) demo_now demo_fresh"
  "\<not> recent (demo_mux m sel ins) demo_now demo_stale"
  by (simp_all add: recent_def demo_mux_def demo_now_def demo_fresh_def demo_stale_def elapsed_ms_def)

text \<open>
  The three cases of the claim: inputs stale, fresh, fresh give the frame of input 2;
  fresh, stale, stale give that of input 0; all stale give the testcard.
\<close>

theorem choose_frame_auto_highest_recent_witness:
  "choose_frame (demo_mux MODE_AUTO (- 1) [demo_stale, demo_fresh, demo_fresh]) demo_now
     = Some (InputFrame 2, 4) \<and>
   choose_frame (demo_mux MODE_AUTO (- 1) [demo_fresh, demo_stale, demo_stale]) demo_now
     = Some (InputFrame 0, 4) \<and>
   choose_frame (demo_mux MODE_AUTO (- 1) [demo_stale, demo_stale, demo_stale]) demo_now
     = Some (TestcardFrame, 5)"
proof (intro conjI)
  let ?a = "demo_mux MODE_AUTO (- 1) [demo_stale, demo_fresh, demo_fresh]"
  have m: "mode ?a = MODE_AUTO" by (simp add: demo_mux_def)
  have "0 \<le> (2::int) \<and> 2 < num_inputs ?a \<and> recent ?a demo_now (inputs ?a ! nat 2) \<and>
        (\<forall>j. 2 < j \<and> j < num_inputs ?a \<longrightarrow> \<not> recent ?a demo_now (inputs ?a ! nat j))"
    by (simp add: demo_mux_def [of MODE_AUTO "- 1" "[demo_stale, demo_fresh, demo_fresh]", THEN arg_cong [of _ _ inputs]]
                  demo_mux_def [of MODE_AUTO "- 1" "[demo_stale, demo_fresh, demo_fresh]", THEN arg_cong [of _ _ num_inputs]])
  with choose_frame_auto_highest_recent [OF m, of demo_now]
  have "choose_frame ?a demo_now = Some (InputFrame (nat 2), frame_size (inputs ?a ! nat 2))"
    by blast
  then show "choose_frame ?a demo_now = Some (InputFrame 2, 4)"
    by (simp add: demo_mux_def demo_fresh_def)
next
  let ?b = "demo_mux MODE_AUTO (- 1) [demo_fresh, demo_stale, demo_stale]"
  have m: "mode ?b = MODE_AUTO" by (simp add: demo_mux_def)
  have ins: "inputs ?b = [demo_fresh, demo_stale, demo_stale]" "num_inputs ?b = 3"
    by (simp_all add: demo_mux_def)
  have later: "\<forall>j. 0 < j \<and> j < num_inputs ?b \<longrightarrow> \<not> recent ?b demo_now (inputs ?b ! nat j)"
  proof (intro allI impI)
    fix j :: int assume "0 < j \<and> j < num_inputs ?b"
    then have "j = 1 \<or> j = 2" unfolding ins by arith
    then have "[demo_fresh, demo_stale, demo_stale] ! nat j = demo_stale" by auto
    then show "\<not> recent ?b demo_now (inputs ?b ! nat j)" unfolding ins by simp
  qed
  have "0 \<le> (0::int) \<and> 0 < num_inputs ?b \<and> recent ?b demo_now (inputs ?b ! nat 0)"
    unfolding ins by simp
  with later
  have "0 \<le> (0::int) \<and> 0 < num_inputs ?b \<and> recent ?b demo_now (inputs ?b ! nat 0) \<and>
        (\<forall>j. 0 < j \<and> j < num_inputs ?b \<longrightarrow> \<not> recent ?b demo_now (inputs ?b ! nat j))"
    by blast
  with choose_frame_auto_highest_recent [OF m, of demo_now]
  have "choose_frame ?b demo_now = Some (InputFrame (nat 0), frame_size (inputs ?b ! nat 0))"
    by blast
  then show "choose_frame ?b demo_now = Some (InputFrame 0, 4)"
    by (simp add: demo_mux_def demo_fresh_def)
next
  let ?c = "demo_mux MODE_AUTO (- 1) [demo_stale, demo_stale, demo_stale]"
  have m: "mode ?c = MODE_AUTO" by (simp add: demo_mux_def)
  have ins: "inputs ?c = [demo_stale, demo_stale, demo_stale]" "num_inputs ?c = 3"
    by (simp_all add: demo_mux_def)
  have "\<forall>j. 0 \<le> j \<and> j < num_inputs ?c \<longrightarrow> \<not> recent ?c demo_now (inputs ?c ! nat j)"
  proof (intro allI impI)
    fix j :: int assume "0 \<le> j \<and> j < num_inputs ?c"
    then have "nat j < 3" unfolding ins by arith
    then have "[demo_stale, demo_stale, demo_stale] ! nat j = demo_stale"
      by (auto simp: less_Suc_eq numeral_3_eq_3)
    then show "\<not> recent ?c demo_now (inputs ?c ! nat j)" unfolding ins by simp
  qed
  with choose_frame_auto_highest_recent [OF m, of demo_now]
  have "choose_frame ?c demo_now = use_testcard ?c" by blast
  then show "choose_frame ?c demo_now = Some (TestcardFrame, 5)"
    by (simp add: use_testcard_def demo_mux_def)
qed

lemma recent_iff_ns:
  "recent st now inp \<longleftrightarrow>
     0 < frame_size inp \<and> elapsed_ns (frame_time inp) now < timeout_ms st * 1000000"
  by (simp add: recent_def elapsed_ms_less_iff)

lemma choose_frame_fixed:
  assumes "mode st = MODE_SOURCE" and "0 \<le> selected st" and "selected st < num_inputs st"
  shows "choose_frame st now =
           (if recent st now (inputs st ! nat (selected st))
            then Some (InputFrame (nat (selected st)), frame_size (inputs st ! nat (selected st)))
            else use_testcard st)"
  using assms by (simp add: choose_frame_def Let_def)

lemma auto_scan_some_input:
  "0 \<le> i \<Longrightarrow> i \<le> n \<Longrightarrow> recent st now (inputs st ! nat i) \<Longrightarrow>
   \<exists>j l. auto_scan st now n = Some (InputFrame j, l) \<and> nat i \<le> j"
proof (induction st now n rule: auto_scan.induct)
  case (1 st now n)
  from "1.prems" have n0: "0 \<le> n" by simp
  show ?case
  proof (cases "recent st now (inputs st ! nat n)")
    case True
    with n0 "1.prems" show ?thesis
      by (auto simp: auto_scan.simps [of st now n] Let_def)
  next
    case False
    with "1.prems" have "i \<noteq> n" by auto
    with "1.prems" have "i \<le> n - 1" by simp
    from "1.IH" [OF n0 refl False "1.prems"(1) this "1.prems"(3)] n0 False
    show ?thesis by (simp add: auto_scan.simps [of st now n] Let_def)
  qed
qed

text \<open>
  Claim C3. In mode \<^verbatim>\<open>MODE_SOURCE\<close> with a valid index \<open>i\<close> selected, when
  input \<open>i\<close> has no cached frame or its frame is as old as the timeout or older,
  \<^verbatim>\<open>choose_frame\<close> returns the testcard (nothing when no testcard is loaded or it
  is empty) and never the frame of any input, whatever the other inputs hold.
\<close>
theorem choose_frame_fixed_stale_falls_back:
  assumes "mode st = MODE_SOURCE" and "selected st = i" and "0 \<le> i" and "i < num_inputs st"
    and "frame_size (inputs st ! nat i) = 0 \<or>
         real_of_int (timeout_ms st) \<le> elapsed_ms (frame_time (inputs st ! nat i)) now"
  shows "choose_frame st now =
           (if testcard st \<noteq> None \<and> 0 < testcard_size st
            then Some (TestcardFrame, testcard_size st) else None) \<and>
         (\<forall>j l. choose_frame st now \<noteq> Some (InputFrame j, l))"
proof -
  from assms(5) have "\<not> recent st now (inputs st ! nat i)"
    by (auto simp: recent_def)
  with assms(1-4) have "choose_frame st now = use_testcard st"
    by (simp add: choose_frame_fixed)
  then show ?thesis by (simp add: use_testcard_def)
qed

theorem choose_frame_fixed_stale_falls_back_witness:
  "choose_frame (demo_mux MODE_SOURCE 0 [demo_stale, demo_fresh, demo_fresh]) demo_now
     = Some (TestcardFrame, 5) \<and>
   choose_frame (demo_mux MODE_SOURCE 1 [demo_fresh, empty_input, demo_fresh]) demo_now
     = Some (TestcardFrame, 5) \<and>
   choose_frame (demo_mux MODE_AUTO (- 1) [demo_stale, demo_fresh, demo_fresh]) demo_now
     \<noteq> Some (TestcardFrame, 5)"
proof (intro conjI)
  let ?s = "demo_mux MODE_SOURCE 0 [demo_stale, demo_fresh, demo_fresh]"
  have h: "mode ?s = MODE_SOURCE" "selected ?s = 0" "(0::int) \<le> 0" "0 < num_inputs ?s"
    by (simp_all add: demo_mux_def)
  have st: "frame_size (inputs ?s ! nat 0) = 0 \<or>
            real_of_int (timeout_ms ?s) \<le> elapsed_ms (frame_time (inputs ?s ! nat 0)) demo_now"
    by (simp add: demo_mux_def demo_stale_def demo_now_def elapsed_ms_def)
  from choose_frame_fixed_stale_falls_back [OF h st]
  show "choose_frame ?s demo_now = Some (TestcardFrame, 5)"
    by (simp add: demo_mux_def)
next
  let ?s = "demo_mux MODE_SOURCE 1 [demo_fresh, empty_input, demo_fresh]"
  have h: "mode ?s = MODE_SOURCE" "selected ?s = 1" "(0::int) \<le> 1" "1 < num_inputs ?s"
    by (simp_all add: demo_mux_def)
  have st: "frame_size (inputs ?s ! nat 1) = 0 \<or>
            real_of_int (timeout_ms ?s) \<le> elapsed_ms (frame_time (inputs ?s ! nat 1)) demo_now"
    by (simp add: demo_mux_def empty_input_def)
  from choose_frame_fixed_stale_falls_back [OF h st]
  show "choose_frame ?s demo_now = Some (TestcardFrame, 5)"
    by (simp add: demo_mux_def)
next
  show "choose_frame (demo_mux MODE_AUTO (- 1) [demo_stale, demo_fresh, demo_fresh]) demo_now
          \<noteq> Some (TestcardFrame, 5)"
    by (simp add: choose_frame_def auto_scan.simps demo_mux_def demo_fresh_def demo_now_def
          recent_def elapsed_ms_def)
qed

text \<open>
  Claim C5. With \<open>now - t\<close> the time between the capture of a cached frame and the
  query, in nanoseconds, and the threshold \<open>timeout_ms\<close> milliseconds: no frame whose
  age has reached the threshold is ever selected, in any mode; a selected input with a
  cached frame is served exactly when the age is strictly below the threshold, and at
  the threshold or beyond the testcard result is served instead; in automatic mode an
  input whose frame is strictly younger than the threshold is eligible, so some input
  at or above it is served.
\<close>
theorem staleness_boundary_exclusive:
  "elapsed_ms t now = real_of_int (elapsed_ns t now) / 1000000 \<and>
   (\<forall>j l. choose_frame st now = Some (InputFrame j, l) \<longrightarrow>
      elapsed_ns (frame_time (inputs st ! j)) now < timeout_ms st * 1000000) \<and>
   (mode st = MODE_SOURCE \<and> selected st = i \<and> 0 \<le> i \<and> i < num_inputs st \<and>
    0 < frame_size (inputs st ! nat i) \<longrightarrow>
      (timeout_ms st * 1000000 \<le> elapsed_ns (frame_time (inputs st ! nat i)) now \<longrightarrow>
         choose_frame st now = use_testcard st) \<and>
      (elapsed_ns (frame_time (inputs st ! nat i)) now < timeout_ms st * 1000000 \<longrightarrow>
         choose_frame st now = Some (InputFrame (nat i), frame_size (inputs st ! nat i)))) \<and>
   (mode st = MODE_AUTO \<and> 0 \<le> i \<and> i < num_inputs st \<and>
    0 < frame_size (inputs st ! nat i) \<and>
    elapsed_ns (frame_time (inputs st ! nat i)) now < timeout_ms st * 1000000 \<longrightarrow>
      (\<exists>j l. choose_frame st now = Some (InputFrame j, l) \<and> nat i \<le> j))"
proof (intro conjI allI impI)
  show "elapsed_ms t now = real_of_int (elapsed_ns t now) / 1000000"
    by (rule elapsed_ms_ns)
next
  fix j l assume "choose_frame st now = Some (InputFrame j, l)"
  from choose_frame_input [OF this]
  show "elapsed_ns (frame_time (inputs st ! j)) now < timeout_ms st * 1000000"
    by (simp add: recent_iff_ns)
next
  assume a: "mode st = MODE_SOURCE \<and> selected st = i \<and> 0 \<le> i \<and> i < num_inputs st \<and>
             0 < frame_size (inputs st ! nat i)"
    and s: "timeout_ms st * 1000000 \<le> elapsed_ns (frame_time (inputs st ! nat i)) now"
  from s have "\<not> recent st now (inputs st ! nat i)" by (simp add: recent_iff_ns)
  with a show "choose_frame st now = use_testcard st"
    by (simp add: choose_frame_fixed)
next
  assume a: "mode st = MODE_SOURCE \<and> selected st = i \<and> 0 \<le> i \<and> i < num_inputs st \<and>
             0 < frame_size (inputs st ! nat i)"
    and f: "elapsed_ns (frame_time (inputs st ! nat i)) now < timeout_ms st * 1000000"
  from a f have "recent st now (inputs st ! nat i)" by (simp add: recent_iff_ns)
  with a show "choose_frame st now = Some (InputFrame (nat i), frame_size (inputs st ! nat i))"
    by (simp add: choose_frame_fixed)
next
  assume a: "mode st = MODE_AUTO \<and> 0 \<le> i \<and> i < num_inputs st \<and>
             0 < frame_size (inputs st ! nat i) \<and>
             elapsed_ns (frame_time (inputs st ! nat i)) now < timeout_ms st * 1000000"
  then have r: "recent st now (inputs st ! nat i)" by (simp add: recent_iff_ns)
  from a have cf: "choose_frame st now = auto_scan st now (num_inputs st - 1)"
    by (simp add: choose_frame_def)
  from a have "0 \<le> i" "i \<le> num_inputs st - 1" by simp_all
  from auto_scan_some_input [OF this r]
  show "\<exists>j l. choose_frame st now = Some (InputFrame j, l) \<and> nat i \<le> j"
    unfolding cf .
qed

text \<open>A frame exactly 500 ms old is stale; one nanosecond younger, it is served.\<close>

theorem staleness_boundary_exclusive_witness:
  "elapsed_ns (frame_time demo_boundary) demo_now = 500 * 1000000 \<and>
   choose_frame (demo_mux MODE_SOURCE 0 [demo_boundary, demo_fresh, demo_fresh]) demo_now
     = Some (TestcardFrame, 5) \<and>
   elapsed_ns (frame_time demo_just_fresh) demo_now = 500 * 1000000 - 1 \<and>
   choose_frame (demo_mux MODE_SOURCE 0 [demo_just_fresh, demo_fresh, demo_fresh]) demo_now
     = Some (InputFrame 0, 4)"
proof -
  let ?b = "demo_mux MODE_SOURCE 0 [demo_boundary, demo_fresh, demo_fresh]"
  let ?f = "demo_mux MODE_SOURCE 0 [demo_just_fresh, demo_fresh, demo_fresh]"
  have eb: "elapsed_ns (frame_time demo_boundary) demo_now = 500 * 1000000"
    by (simp add: elapsed_ns_def demo_boundary_def demo_now_def)
  have ef: "elapsed_ns (frame_time demo_just_fresh) demo_now = 500 * 1000000 - 1"
    by (simp add: elapsed_ns_def demo_just_fresh_def demo_now_def)
  have hb: "mode ?b = MODE_SOURCE \<and> selected ?b = 0 \<and> (0::int) \<le> 0 \<and> 0 < num_inputs ?b \<and>
            0 < frame_size (inputs ?b ! nat 0)"
    by (simp add: demo_mux_def demo_boundary_def)
  have sb: "timeout_ms ?b * 1000000 \<le> elapsed_ns (frame_time (inputs ?b ! nat 0)) demo_now"
    using eb by (simp add: demo_mux_def)
  have hf: "mode ?f = MODE_SOURCE \<and> selected ?f = 0 \<and> (0::int) \<le> 0 \<and> 0 < num_inputs ?f \<and>
            0 < frame_size (inputs ?f ! nat 0)"
    by (simp add: demo_mux_def demo_just_fresh_def)
  have sf: "elapsed_ns (frame_time (inputs ?f ! nat 0)) demo_now < timeout_ms ?f * 1000000"
    using ef by (simp add: demo_mux_def)
  from staleness_boundary_exclusive [of demo_now demo_now ?b 0] hb sb
  have "choose_frame ?b demo_now = use_testcard ?b" by blast
  then have rb: "choose_frame ?b demo_now = Some (TestcardFrame, 5)"
    by (simp add: use_testcard_def demo_mux_def)
  from staleness_boundary_exclusive [of demo_now demo_now ?f 0] hf sf
  have "choose_frame ?f demo_now = Some (InputFrame (nat 0), frame_size (inputs ?f ! nat 0))"
    by blast
  then have rf: "choose_frame ?f demo_now = Some (InputFrame 0, 4)"
    by (simp add: demo_mux_def demo_just_fresh_def)
  from eb rb ef rf show ?thesis by blast
qed

section \<open>Properties of the control line parser\<close>

lemma digit_char_props:
  "d < 10 \<Longrightarrow> isdigit (digit_char d) \<and> int (of_char (digit_char d)) - 48 = int d \<and>
     \<not> isspace (digit_char d) \<and> digit_char d \<noteq> CHR ''-'' \<and> digit_char d \<noteq> CHR ''+'' \<and>
     digit_char d \<notin> trail_ws \<and> digit_char d \<notin> lead_ws"
proof -
  assume "d < 10"
  then have "d = 0 \<or> d = 1 \<or> d = 2 \<or> d = 3 \<or> d = 4 \<or> d = 5 \<or> d = 6 \<or> d = 7 \<or> d = 8 \<or> d = 9"
    by arith
  then show ?thesis
    by (elim disjE) (simp_all add: digit_char_def isdigit_def isspace_def trail_ws_def lead_ws_def)
qed

lemma ltrim_skip: "set ws \<subseteq> lead_ws \<Longrightarrow> ltrim (ws @ xs) = ltrim xs"
  by (induction ws) (auto simp: lead_ws_def)

lemma ltrim_stop: "xs \<noteq> [] \<Longrightarrow> hd xs \<notin> lead_ws \<Longrightarrow> ltrim xs = xs"
  by (cases xs) (auto simp: lead_ws_def)

lemma set_ltrim: "set (ltrim xs) \<subseteq> set xs"
  by (induction xs) auto

lemma rtrim_stop: "xs = [] \<or> last xs \<notin> trail_ws \<Longrightarrow> rtrim xs = xs"
  by (subst rtrim.simps) (auto simp: trail_ws_def)

lemma rtrim_skip: "set ws \<subseteq> trail_ws \<Longrightarrow> rtrim (xs @ ws) = rtrim xs"
proof (induction ws rule: rev_induct)
  case Nil
  then show ?case by simp
next
  case (snoc c ws)
  then have c: "c \<in> trail_ws" and ws: "set ws \<subseteq> trail_ws" by simp_all
  have "rtrim (xs @ ws @ [c]) = rtrim (butlast (xs @ ws @ [c]))"
    using c by (subst rtrim.simps) (auto simp: trail_ws_def)
  also have "butlast (xs @ ws @ [c]) = xs @ ws" by (simp add: butlast_append)
  finally show ?case using snoc.IH [OF ws] by simp
qed

lemma trim_shape:
  assumes "set ws1 \<subseteq> lead_ws" and "set ws2 \<subseteq> trail_ws"
    and "body \<noteq> [] \<longrightarrow> hd body \<notin> lead_ws \<and> last body \<notin> trail_ws"
  shows "rtrim (ltrim (ws1 @ body @ ws2)) = body"
proof (cases "body = []")
  case True
  have "set (ltrim ws2) \<subseteq> trail_ws" using set_ltrim [of ws2] assms(2) by blast
  then have "rtrim ([] @ ltrim ws2) = rtrim []" by (rule rtrim_skip)
  then have "rtrim (ltrim ws2) = []" by (simp add: rtrim_stop)
  with True assms(1) show ?thesis by (simp add: ltrim_skip)
next
  case False
  with assms(3) have h: "hd (body @ ws2) \<notin> lead_ws" and l: "last body \<notin> trail_ws" by simp_all
  from False h have "ltrim (body @ ws2) = body @ ws2" by (intro ltrim_stop) simp_all
  with assms(1) have "ltrim (ws1 @ body @ ws2) = body @ ws2" by (simp add: ltrim_skip)
  moreover have "rtrim (body @ ws2) = body"
    using rtrim_skip [OF assms(2), of body] l by (simp add: rtrim_stop)
  ultimately show ?thesis by simp
qed

lemma atoi_digits_snoc:
  "\<forall>c \<in> set ds. isdigit c \<Longrightarrow> isdigit c \<Longrightarrow>
     atoi_digits acc (ds @ [c]) = atoi_digits acc ds * 10 + (int (of_char c) - 48)"
  by (induction ds arbitrary: acc) simp_all

lemma decimal_digits:
  "(\<forall>c \<in> set (decimal n). isdigit c) \<and> atoi_digits 0 (decimal n) = int n \<and> decimal n \<noteq> [] \<and>
   isdigit (hd (decimal n)) \<and> hd (decimal n) \<notin> lead_ws \<and> \<not> isspace (hd (decimal n)) \<and>
   hd (decimal n) \<noteq> CHR ''-'' \<and> hd (decimal n) \<noteq> CHR ''+'' \<and> last (decimal n) \<notin> trail_ws"
proof (induction n rule: decimal.induct)
  case (1 n)
  show ?case
  proof (cases "n < 10")
    case True
    with digit_char_props [OF True] show ?thesis
      by (simp add: decimal.simps [of n])
  next
    case False
    have m: "n mod 10 < 10" by simp
    note ih = "1.IH" [OF False]
    note dc = digit_char_props [OF m]
    have d: "decimal n = decimal (n div 10) @ [digit_char (n mod 10)]"
      using False by (simp add: decimal.simps [of n])
    have v: "atoi_digits 0 (decimal n) = int n"
      unfolding d using ih dc by (simp add: atoi_digits_snoc zdiv_int zmod_int)
    from ih dc v show ?thesis unfolding d by simp
  qed
qed

lemma atoi_plain:
  "s \<noteq> [] \<Longrightarrow> \<not> isspace (hd s) \<Longrightarrow> hd s \<noteq> CHR ''-'' \<Longrightarrow> hd s \<noteq> CHR ''+'' \<Longrightarrow>
     atoi s = signed_take_bit 31 (max (- (2 ^ 63)) (min (2 ^ 63 - 1) (atoi_digits 0 s)))"
  by (cases s) (simp_all add: atoi_def Let_def)

lemma atoi_minus:
  "atoi (CHR ''-'' # s) =
     signed_take_bit 31 (max (- (2 ^ 63)) (min (2 ^ 63 - 1) (- atoi_digits 0 s)))"
  by (simp add: atoi_def Let_def isspace_def)

lemma atoi_decimal: "n < 2 ^ 31 \<Longrightarrow> atoi (decimal n) = int n"
proof -
  assume n: "n < 2 ^ 31"
  note dd = decimal_digits [of n]
  from dd have "atoi (decimal n) =
      signed_take_bit 31 (max (- (2 ^ 63)) (min (2 ^ 63 - 1) (atoi_digits 0 (decimal n))))"
    by (intro atoi_plain) simp_all
  also from dd have "atoi_digits 0 (decimal n) = int n" by simp
  also have "max (- (2 ^ 63)) (min (2 ^ 63 - 1) (int n)) = int n" using n by simp
  also have "signed_take_bit 31 (int n) = int n"
    using n by (simp add: signed_take_bit_int_eq_self)
  finally show ?thesis .
qed

lemma atoi_minus_decimal: "n \<le> 2 ^ 31 \<Longrightarrow> atoi (CHR ''-'' # decimal n) = - int n"
proof -
  assume n: "n \<le> 2 ^ 31"
  note dd = decimal_digits [of n]
  have "atoi (CHR ''-'' # decimal n) =
      signed_take_bit 31 (max (- (2 ^ 63)) (min (2 ^ 63 - 1) (- atoi_digits 0 (decimal n))))"
    by (rule atoi_minus)
  also from dd have "atoi_digits 0 (decimal n) = int n" by simp
  also have "max (- (2 ^ 63)) (min (2 ^ 63 - 1) (- int n)) = - int n" using n by simp
  also have "signed_take_bit 31 (- int n) = - int n"
    using n by (simp add: signed_take_bit_int_eq_self)
  finally show ?thesis .
qed

lemma process_trimmed:
  assumes "set ws1 \<subseteq> lead_ws" and "set ws2 \<subseteq> trail_ws"
    and "body \<noteq> [] \<longrightarrow> hd body \<notin> lead_ws \<and> last body \<notin> trail_ws"
  shows "process_ctl_line (ws1 @ body @ ws2) st =
           (if body = [] then st
            else if take 7 body = ''source '' then
              (if 0 \<le> atoi (drop 7 body) \<and> atoi (drop 7 body) < num_inputs st
               then st\<lparr>mode := MODE_SOURCE, selected := atoi (drop 7 body)\<rparr> else st)
            else if body = ''testcard'' then st\<lparr>mode := MODE_TESTCARD, selected := - 1\<rparr>
            else if body = ''auto'' then st\<lparr>mode := MODE_AUTO, selected := - 1\<rparr>
            else st)"
  unfolding process_ctl_line_def trim_shape [OF assms] by (simp add: Let_def)

text \<open>
  Claim C6, as amended. Leading spaces and tabs and trailing spaces, carriage returns
  and line feeds are removed, and the rest is matched with case: \<^verbatim>\<open>source n\<close> for
  a decimal \<open>n\<close> below \<open>2 ^ 31\<close> selects source \<open>n\<close> when \<open>n < num_inputs\<close>
  and changes nothing otherwise, nor does a negative number; \<^verbatim>\<open>testcard\<close> selects
  the testcard and \<^verbatim>\<open>auto\<close> the automatic mode; a line that does not begin with
  \<^verbatim>\<open>source\<close> and a space and is neither of the two words changes nothing. Whatever
  follows \<^verbatim>\<open>source\<close> and the space is read by \<^verbatim>\<open>atoi\<close>.
\<close>
theorem process_ctl_line_grammar:
  assumes "set ws1 \<subseteq> lead_ws" and "set ws2 \<subseteq> trail_ws"
  shows "(n < 2 ^ 31 \<longrightarrow>
            process_ctl_line (ws1 @ ''source '' @ decimal n @ ws2) st =
              (if int n < num_inputs st then st\<lparr>mode := MODE_SOURCE, selected := int n\<rparr>
               else st)) \<and>
         (0 < n \<and> n \<le> 2 ^ 31 \<longrightarrow>
            process_ctl_line (ws1 @ ''source -'' @ decimal n @ ws2) st = st) \<and>
         process_ctl_line (ws1 @ ''testcard'' @ ws2) st =
           st\<lparr>mode := MODE_TESTCARD, selected := - 1\<rparr> \<and>
         process_ctl_line (ws1 @ ''auto'' @ ws2) st = st\<lparr>mode := MODE_AUTO, selected := - 1\<rparr> \<and>
         ((body \<noteq> [] \<longrightarrow> hd body \<notin> lead_ws \<and> last body \<notin> trail_ws) \<and>
          take 7 body \<noteq> ''source '' \<and> body \<noteq> ''testcard'' \<and> body \<noteq> ''auto'' \<longrightarrow>
            process_ctl_line (ws1 @ body @ ws2) st = st) \<and>
         (rest \<noteq> [] \<and> last rest \<notin> trail_ws \<longrightarrow>
            process_ctl_line (ws1 @ ''source '' @ rest @ ws2) st =
              (if 0 \<le> atoi rest \<and> atoi rest < num_inputs st
               then st\<lparr>mode := MODE_SOURCE, selected := atoi rest\<rparr> else st))"
proof (intro conjI impI)
  assume n: "n < 2 ^ 31"
  note dd = decimal_digits [of n]
  have "process_ctl_line (ws1 @ (''source '' @ decimal n) @ ws2) st =
          (if int n < num_inputs st then st\<lparr>mode := MODE_SOURCE, selected := int n\<rparr> else st)"
    using dd by (subst process_trimmed [OF assms]) (simp_all add: lead_ws_def atoi_decimal [OF n])
  then show "process_ctl_line (ws1 @ ''source '' @ decimal n @ ws2) st =
          (if int n < num_inputs st then st\<lparr>mode := MODE_SOURCE, selected := int n\<rparr> else st)"
    by simp
next
  assume n: "0 < n \<and> n \<le> 2 ^ 31"
  note dd = decimal_digits [of n]
  from n have a: "atoi (CHR ''-'' # decimal n) = - int n" by (simp add: atoi_minus_decimal)
  have "process_ctl_line (ws1 @ (''source -'' @ decimal n) @ ws2) st = st"
    using dd n by (subst process_trimmed [OF assms]) (simp_all add: lead_ws_def a)
  then show "process_ctl_line (ws1 @ ''source -'' @ decimal n @ ws2) st = st" by simp
next
  show "process_ctl_line (ws1 @ ''testcard'' @ ws2) st =
          st\<lparr>mode := MODE_TESTCARD, selected := - 1\<rparr>"
    by (subst process_trimmed [OF assms]) (simp_all add: lead_ws_def trail_ws_def)
next
  show "process_ctl_line (ws1 @ ''auto'' @ ws2) st = st\<lparr>mode := MODE_AUTO, selected := - 1\<rparr>"
    by (subst process_trimmed [OF assms]) (simp_all add: lead_ws_def trail_ws_def)
next
  assume b: "(body \<noteq> [] \<longrightarrow> hd body \<notin> lead_ws \<and> last body \<notin> trail_ws) \<and>
             take 7 body \<noteq> ''source '' \<and> body \<noteq> ''testcard'' \<and> body \<noteq> ''auto''"
  then have sh: "body \<noteq> [] \<longrightarrow> hd body \<notin> lead_ws \<and> last body \<notin> trail_ws" by simp
  show "process_ctl_line (ws1 @ body @ ws2) st = st"
    using b by (subst process_trimmed [OF assms sh]) simp
next
  assume r: "rest \<noteq> [] \<and> last rest \<notin> trail_ws"
  have "process_ctl_line (ws1 @ (''source '' @ rest) @ ws2) st =
          (if 0 \<le> atoi rest \<and> atoi rest < num_inputs st
           then st\<lparr>mode := MODE_SOURCE, selected := atoi rest\<rparr> else st)"
    using r by (subst process_trimmed [OF assms]) (simp_all add: lead_ws_def)
  then show "process_ctl_line (ws1 @ ''source '' @ rest @ ws2) st =
          (if 0 \<le> atoi rest \<and> atoi rest < num_inputs st
           then st\<lparr>mode := MODE_SOURCE, selected := atoi rest\<rparr> else st)"
    by simp
qed

lemma decimal_2: "decimal 2 = ''2''"
  by (simp add: decimal.simps digit_char_def)

lemma decimal_99: "decimal 99 = ''99''"
  by (simp add: decimal.simps digit_char_def)

lemma startup_3: "num_inputs (startup 3 tc n t) = 3"
  by (simp add: startup_def MAX_INPUTS_def)

text \<open>The lines of the claim, with three inputs.\<close>

theorem process_ctl_line_grammar_witness:
  "process_ctl_line ''source 2'' (startup 3 None 0 500)
     = (startup 3 None 0 500)\<lparr>mode := MODE_SOURCE, selected := 2\<rparr> \<and>
   process_ctl_line ''source 99'' (startup 3 None 0 500) = startup 3 None 0 500 \<and>
   process_ctl_line (''  auto  '' @ [CHR 0x0D, CHR 0x0A])
       ((startup 3 None 0 500)\<lparr>mode := MODE_SOURCE, selected := 2\<rparr>)
     = (startup 3 None 0 500)\<lparr>mode := MODE_AUTO, selected := - 1\<rparr> \<and>
   process_ctl_line ''testcard'' (startup 3 None 0 500)
     = (startup 3 None 0 500)\<lparr>mode := MODE_TESTCARD, selected := - 1\<rparr> \<and>
   process_ctl_line ''bogus'' (startup 3 None 0 500) = startup 3 None 0 500"
proof -
  let ?s = "startup 3 None 0 500"
  let ?s2 = "?s\<lparr>mode := MODE_SOURCE, selected := 2\<rparr>"
  have e: "set ([] :: string) \<subseteq> lead_ws" "set ([] :: string) \<subseteq> trail_ws" by simp_all
  have w: "set ''  '' \<subseteq> lead_ws" "set (''  '' @ [CHR 0x0D, CHR 0x0A]) \<subseteq> trail_ws"
    by (simp_all add: lead_ws_def trail_ws_def)
  have a: "process_ctl_line ''source 2'' ?s = ?s2"
    using process_ctl_line_grammar [OF e, of 2 ?s] by (simp add: decimal_2 startup_3)
  have b: "process_ctl_line ''source 99'' ?s = ?s"
    using process_ctl_line_grammar [OF e, of 99 ?s] by (simp add: decimal_99 startup_3)
  have c: "process_ctl_line (''  auto  '' @ [CHR 0x0D, CHR 0x0A]) ?s2
             = ?s\<lparr>mode := MODE_AUTO, selected := - 1\<rparr>"
    using process_ctl_line_grammar [OF w, of _ ?s2] by simp
  have d: "process_ctl_line ''testcard'' ?s = ?s\<lparr>mode := MODE_TESTCARD, selected := - 1\<rparr>"
    using process_ctl_line_grammar [OF e, of _ ?s] by simp
  have f: "process_ctl_line ''bogus'' ?s = ?s"
    using process_ctl_line_grammar [OF e, of _ ?s "''bogus''"]
    by (simp add: lead_ws_def trail_ws_def)
  from a b c d f show ?thesis by blast
qed

text \<open>
  The claim as first stated fails on a line that begins like a source command and
  carries no number: \<^verbatim>\<open>atoi\<close> gives 0 and source 0 is selected.
\<close>

theorem process_ctl_line_non_numeric_counterexample:
  "mode (startup 3 None 0 500) = MODE_AUTO \<and>
   selected (startup 3 None 0 500) = - 1 \<and>
   mode (process_ctl_line ''source x'' (startup 3 None 0 500)) = MODE_SOURCE \<and>
   selected (process_ctl_line ''source x'' (startup 3 None 0 500)) = 0 \<and>
   process_ctl_line ''source x'' (startup 3 None 0 500) \<noteq> startup 3 None 0 500"
proof -
  let ?s = "startup 3 None 0 500"
  have t: "rtrim ''source x'' = ''source x''"
    by (simp add: rtrim.simps)
  have a: "atoi ''x'' = 0" by (simp add: atoi_def isspace_def isdigit_def)
  have p: "process_ctl_line ''source x'' ?s = ?s\<lparr>mode := MODE_SOURCE, selected := 0\<rparr>"
    by (simp add: process_ctl_line_def t a startup_3)
  have m: "mode ?s = MODE_AUTO" "selected ?s = - 1" by (simp_all add: startup_def)
  have "process_ctl_line ''source x'' ?s \<noteq> ?s"
  proof
    assume "process_ctl_line ''source x'' ?s = ?s"
    then have "mode (process_ctl_line ''source x'' ?s) = mode ?s" by simp
    with p m show False by simp
  qed
  with p m show ?thesis by simp
qed

lemma process_ctl_line_inv: "mode_inv st \<Longrightarrow> mode_inv (process_ctl_line line st)"
  by (simp add: mode_inv_def process_ctl_line_def Let_def)

lemma process_ctl_line_fixed:
  "num_inputs (process_ctl_line line st) = num_inputs st \<and>
   inputs (process_ctl_line line st) = inputs st"
  by (simp add: process_ctl_line_def Let_def)

lemma drain_input_fixed:
  "num_inputs (drain_input st r) = num_inputs st \<and>
   length (inputs (drain_input st r)) = length (inputs st) \<and>
   mode (drain_input st r) = mode st \<and> selected (drain_input st r) = selected st"
  by (simp add: drain_input_def split: prod.splits)

lemma startup_inv: "reach_inv (startup n tc tcs tmo)"
  by (simp add: reach_inv_def mode_inv_def startup_def Let_def MAX_INPUTS_def)

lemma apply_event_inv: "reach_inv st \<Longrightarrow> reach_inv (apply_event st ev)"
proof (cases ev)
  case (Control line)
  assume "reach_inv st"
  with Control show ?thesis
    by (simp add: reach_inv_def process_ctl_line_inv process_ctl_line_fixed)
next
  case (Readable i chunks now)
  assume "reach_inv st"
  with Readable show ?thesis
    by (simp add: reach_inv_def mode_inv_def drain_input_fixed)
qed

lemma run_inv: "reach_inv st \<Longrightarrow> reach_inv (foldl apply_event st evs)"
  by (induction evs arbitrary: st) (simp_all add: apply_event_inv)

text \<open>
  Claim C9. In every state reached from the start-up state by control lines and drains,
  \<^verbatim>\<open>MODE_SOURCE\<close> implies \<open>0 \<le> selected < num_inputs\<close>, and \<^verbatim>\<open>MODE_AUTO\<close> and
  \<^verbatim>\<open>MODE_TESTCARD\<close> imply \<open>selected = -1\<close>; so in \<^verbatim>\<open>MODE_SOURCE\<close> the guard of
  \<^verbatim>\<open>choose_frame\<close> holds and the branch reads an input inside the array.
\<close>
theorem mode_selected_invariant:
  assumes "st = foldl apply_event (startup n tc tcs tmo) evs"
  shows "(mode st = MODE_SOURCE \<longrightarrow> 0 \<le> selected st \<and> selected st < num_inputs st) \<and>
         (mode st = MODE_AUTO \<or> mode st = MODE_TESTCARD \<longrightarrow> selected st = - 1) \<and>
         (mode st = MODE_SOURCE \<longrightarrow>
            nat (selected st) < length (inputs st) \<and>
            choose_frame st now =
              (if recent st now (inputs st ! nat (selected st))
               then Some (InputFrame (nat (selected st)),
                          frame_size (inputs st ! nat (selected st)))
               else use_testcard st))"
proof -
  have "reach_inv st" unfolding assms by (rule run_inv [OF startup_inv])
  then show ?thesis
    by (auto simp: reach_inv_def mode_inv_def choose_frame_def Let_def)
qed

theorem mode_selected_invariant_witness:
  "mode (foldl apply_event (startup 3 None 0 500)
           [Control ''auto'', Control ''source 7'', Control ''source 1'',
            Readable 1 [[0xFF, 0xD8, 0xFF, 0xD9]] \<lparr>tv_sec = 5, tv_nsec = 0\<rparr>]) = MODE_SOURCE \<and>
   selected (foldl apply_event (startup 3 None 0 500)
           [Control ''auto'', Control ''source 7'', Control ''source 1'',
            Readable 1 [[0xFF, 0xD8, 0xFF, 0xD9]] \<lparr>tv_sec = 5, tv_nsec = 0\<rparr>]) = 1 \<and>
   num_inputs (foldl apply_event (startup 3 None 0 500)
           [Control ''auto'', Control ''source 7'', Control ''source 1'',
            Readable 1 [[0xFF, 0xD8, 0xFF, 0xD9]] \<lparr>tv_sec = 5, tv_nsec = 0\<rparr>]) = 3 \<and>
   length (inputs (foldl apply_event (startup 3 None 0 500)
           [Control ''auto'', Control ''source 7'', Control ''source 1'',
            Readable 1 [[0xFF, 0xD8, 0xFF, 0xD9]] \<lparr>tv_sec = 5, tv_nsec = 0\<rparr>])) = 8"
proof -
  let ?evs = "[Control ''auto'', Control ''source 7'', Control ''source 1'',
               Readable 1 [[0xFF, 0xD8, 0xFF, 0xD9]] \<lparr>tv_sec = 5, tv_nsec = 0\<rparr>]"
  let ?st = "foldl apply_event (startup 3 None 0 500) ?evs"
  have t: "rtrim ''auto'' = ''auto''" "rtrim ''source 7'' = ''source 7''"
    "rtrim ''source 1'' = ''source 1''"
    by (simp_all add: rtrim.simps)
  have a: "atoi ''7'' = 7" "atoi ''1'' = 1"
    by (simp_all add: atoi_def isspace_def isdigit_def)
  have m: "mode ?st = MODE_SOURCE" and s: "selected ?st = 1" and n: "num_inputs ?st = 3"
    by (simp_all add: process_ctl_line_def t a startup_3 drain_input_def)
  from mode_selected_invariant [OF refl, of 3 None 0 500 ?evs] m s
  have "nat 1 < length (inputs ?st)" by simp
  moreover have "length (inputs ?st) = 8"
    by (simp add: process_ctl_line_def t a startup_3 drain_input_def startup_def MAX_INPUTS_def)
  ultimately show ?thesis using m s n by simp
qed

section \<open>Properties of the read buffer\<close>

















section \<open>Properties of the exit path\<close>

lemma write_stdout_Cons:
  "write_stdout len tot (e # r) =
     (if tot < len then
        (case e of
           Written w \<Rightarrow> if w = 0 then Some False else write_stdout len (tot + w) r
         | WouldBlock p \<Rightarrow> if p \<le> 0 then Some False else write_stdout len tot r
         | WriteError \<Rightarrow> Some False)
      else Some True)"
  by (subst write_stdout.simps) simp

lemma write_stdout_False:
  "write_stdout len tot evs = Some False \<Longrightarrow> \<exists>e \<in> set evs. \<not> write_ok_ev e"
proof (induction evs arbitrary: tot)
  case Nil
  then show ?case by (simp add: write_stdout.simps split: if_splits)
next
  case (Cons e evs)
  show ?case
  proof (cases "write_ok_ev e")
    case False
    then show ?thesis by simp
  next
    case True
    with Cons.prems have "\<exists>tot'. write_stdout len tot' evs = Some False"
      by (cases e) (auto simp: write_stdout_Cons split: if_splits)
    with Cons.IH show ?thesis by auto
  qed
qed

lemma loop_body_False:
  "loop_body iv lo st it = Some (False, lo', st') \<Longrightarrow>
     \<exists>flen. 0 < flen \<and> write_stdout flen 0 (it_writes it) = Some False"
  by (auto simp: loop_body_def Let_def split: if_splits option.splits)

lemma main_loop_status: "main_loop iv running lo st its = Some c \<Longrightarrow> c = 0"
proof (induction its arbitrary: running lo st)
  case Nil
  then show ?case by (simp split: if_splits)
next
  case (Cons it its)
  show ?case
  proof (cases running)
    case False
    with Cons.prems show ?thesis by simp
  next
    case True
    with Cons.prems obtain ok lo' st' where
      "main_loop iv (ok \<and> \<not> it_signal it) lo' st' its = Some c"
      by (auto split: option.splits)
    then show ?thesis by (rule Cons.IH)
  qed
qed

lemma main_loop_stopped: "main_loop iv False lo st its = Some 0"
  by (cases its) simp_all

lemma main_loop_keeps_running:
  "\<forall>it \<in> set its. \<not> it_signal it \<and> (\<forall>e \<in> set (it_writes it). write_ok_ev e) \<Longrightarrow>
   main_loop iv True lo st its = None"
proof (induction its arbitrary: lo st)
  case Nil
  then show ?case by simp
next
  case (Cons it its)
  then have sig: "\<not> it_signal it" and ws: "\<forall>e \<in> set (it_writes it). write_ok_ev e"
    and rest: "\<forall>it \<in> set its. \<not> it_signal it \<and> (\<forall>e \<in> set (it_writes it). write_ok_ev e)"
    by simp_all
  show ?case
  proof (cases "loop_body iv lo st it")
    case None
    then show ?thesis by simp
  next
    case (Some r)
    obtain ok lo' st' where r: "r = (ok, lo', st')" by (cases r)
    have ok
    proof (rule ccontr)
      assume "\<not> ok"
      with Some r have "loop_body iv lo st it = Some (False, lo', st')" by simp
      from loop_body_False [OF this] obtain flen where
        "write_stdout flen 0 (it_writes it) = Some False" by blast
      from write_stdout_False [OF this] ws show False by blast
    qed
    with Some r sig Cons.IH [OF rest] show ?thesis by simp
  qed
qed

text \<open>
  Claim C8, as amended. Whenever the process leaves the main loop its exit status is 0.
  The loop is left after a pass in which \<^verbatim>\<open>write_stdout\<close> failed or a signal
  arrived, and only then: the body clears \<^verbatim>\<open>running\<close> only when
  \<^verbatim>\<open>write_stdout\<close> returns 0, which needs a \<^verbatim>\<open>write\<close> that fails with an error
  other than would-block, writes nothing, or blocks with \<^verbatim>\<open>poll\<close> not reporting
  the descriptor writable; any such outcome before the frame is complete makes it
  return 0; and with no signal and no such outcome the process keeps running.
\<close>
theorem main_loop_exit_status:
  "(main_loop iv running lo st its = Some c \<longrightarrow> c = 0) \<and>
   (loop_body iv lo st it = Some (ok, lo', st') \<and> (\<not> ok \<or> it_signal it) \<longrightarrow>
      main_loop iv True lo st (it # rest) = Some 0) \<and>
   (loop_body iv lo st it = Some (False, lo', st') \<longrightarrow>
      (\<exists>flen. 0 < flen \<and> write_stdout flen 0 (it_writes it) = Some False)) \<and>
   (write_stdout len tot evs = Some False \<longrightarrow> (\<exists>e \<in> set evs. \<not> write_ok_ev e)) \<and>
   (tot < len \<and> \<not> write_ok_ev e \<longrightarrow> write_stdout len tot (e # evs) = Some False) \<and>
   ((\<forall>it \<in> set its. \<not> it_signal it \<and> (\<forall>e \<in> set (it_writes it). write_ok_ev e)) \<longrightarrow>
      main_loop iv True lo st its = None)"
proof (intro conjI impI)
  assume "main_loop iv running lo st its = Some c"
  then show "c = 0" by (rule main_loop_status)
next
  assume "loop_body iv lo st it = Some (ok, lo', st') \<and> (\<not> ok \<or> it_signal it)"
  then show "main_loop iv True lo st (it # rest) = Some 0"
    by (auto simp: main_loop_stopped)
next
  assume "loop_body iv lo st it = Some (False, lo', st')"
  then show "\<exists>flen. 0 < flen \<and> write_stdout flen 0 (it_writes it) = Some False"
    by (rule loop_body_False)
next
  assume "write_stdout len tot evs = Some False"
  then show "\<exists>e \<in> set evs. \<not> write_ok_ev e" by (rule write_stdout_False)
next
  assume "tot < len \<and> \<not> write_ok_ev e"
  then show "write_stdout len tot (e # evs) = Some False"
    by (cases e) (simp_all add: write_stdout.simps)
next
  assume "\<forall>it \<in> set its. \<not> it_signal it \<and> (\<forall>e \<in> set (it_writes it). write_ok_ev e)"
  then show "main_loop iv True lo st its = None" by (rule main_loop_keeps_running)
qed

lemma demo_pass_sel:
  "it_signal (demo_pass sig ws) = sig" "it_writes (demo_pass sig ws) = ws"
  by (simp_all add: demo_pass_def)

lemma demo_body:
  "loop_body 100 \<lparr>tv_sec = 0, tv_nsec = 0\<rparr>
     (demo_mux MODE_TESTCARD (- 1) [demo_fresh, demo_fresh, demo_fresh]) (demo_pass sig ws) =
   (case write_stdout 5 0 ws of
      None \<Rightarrow> None
    | Some ok \<Rightarrow> Some (ok, \<lparr>tv_sec = 10, tv_nsec = 0\<rparr>,
        demo_mux MODE_TESTCARD (- 1) [demo_fresh, demo_fresh, demo_fresh]))"
proof -
  let ?st = "demo_mux MODE_TESTCARD (- 1) [demo_fresh, demo_fresh, demo_fresh]"
  have cf: "choose_frame ?st \<lparr>tv_sec = 10, tv_nsec = 0\<rparr> = Some (TestcardFrame, 5)"
    by (simp add: choose_frame_def use_testcard_def demo_mux_def)
  show ?thesis
    by (simp add: loop_body_def demo_pass_def Let_def cf)
qed

text \<open>
  Three runs of one pass each: a failed write and an interrupt both end with status 0,
  a successful write without a signal leaves the process running.
\<close>

theorem main_loop_exit_status_witness:
  "write_stdout 5 0 [WriteError] = Some False \<and>
   main_loop 100 True \<lparr>tv_sec = 0, tv_nsec = 0\<rparr>
     (demo_mux MODE_TESTCARD (- 1) [demo_fresh, demo_fresh, demo_fresh])
     [demo_pass False [WriteError]] = Some 0 \<and>
   main_loop 100 True \<lparr>tv_sec = 0, tv_nsec = 0\<rparr>
     (demo_mux MODE_TESTCARD (- 1) [demo_fresh, demo_fresh, demo_fresh])
     [demo_pass True [Written 5]] = Some 0 \<and>
   main_loop 100 True \<lparr>tv_sec = 0, tv_nsec = 0\<rparr>
     (demo_mux MODE_TESTCARD (- 1) [demo_fresh, demo_fresh, demo_fresh])
     [demo_pass False [Written 5]] = None"
proof -
  let ?lo = "\<lparr>tv_sec = 0, tv_nsec = 0\<rparr>"
  let ?st = "demo_mux MODE_TESTCARD (- 1) [demo_fresh, demo_fresh, demo_fresh]"
  let ?now = "\<lparr>tv_sec = 10, tv_nsec = 0\<rparr>"
  have w1: "write_stdout 5 0 [WriteError] = Some False"
    by (simp add: write_stdout.simps)
  have w2: "write_stdout 5 0 [Written 5] = Some True"
    by (simp add: write_stdout.simps)
  have b1: "loop_body 100 ?lo ?st (demo_pass False [WriteError]) = Some (False, ?now, ?st)"
    by (simp add: demo_body w1)
  have b2: "loop_body 100 ?lo ?st (demo_pass True [Written 5]) = Some (True, ?now, ?st)"
    by (simp add: demo_body w2)
  have s2: "it_signal (demo_pass True [Written 5])" by (simp add: demo_pass_def)
  from main_loop_exit_status [of 100 True ?lo ?st "[]" 0 "demo_pass False [WriteError]" False ?now ?st "[]"] b1
  have r1: "main_loop 100 True ?lo ?st [demo_pass False [WriteError]] = Some 0" by blast
  from main_loop_exit_status [of 100 True ?lo ?st "[]" 0 "demo_pass True [Written 5]" True ?now ?st "[]"] b2 s2
  have r2: "main_loop 100 True ?lo ?st [demo_pass True [Written 5]] = Some 0" by blast
  have "\<forall>it \<in> set [demo_pass False [Written 5]].
          \<not> it_signal it \<and> (\<forall>e \<in> set (it_writes it). write_ok_ev e)"
    by (simp add: demo_pass_def)
  with main_loop_exit_status [of 100 True ?lo ?st "[demo_pass False [Written 5]]"]
  have r3: "main_loop 100 True ?lo ?st [demo_pass False [Written 5]] = None" by blast
  from w1 r1 r2 r3 show ?thesis by blast
qed

text \<open>
  The claim as first stated asks for a non-zero status after a failed write. The write
  fails, and the status is 0, the same as after an interrupt.
\<close>

theorem write_failure_exit_status_counterexample:
  "write_stdout 5 0 [WriteError] = Some False \<and>
   main_loop 100 True \<lparr>tv_sec = 0, tv_nsec = 0\<rparr>
     (demo_mux MODE_TESTCARD (- 1) [demo_fresh, demo_fresh, demo_fresh])
     [demo_pass False [WriteError]] = Some 0 \<and>
   main_loop 100 True \<lparr>tv_sec = 0, tv_nsec = 0\<rparr>
     (demo_mux MODE_TESTCARD (- 1) [demo_fresh, demo_fresh, demo_fresh])
     [demo_pass True [Written 5]] = Some 0"
proof -
  have w1: "write_stdout 5 0 [WriteError] = Some False"
    by (simp add: write_stdout.simps)
  have w2: "write_stdout 5 0 [Written 5] = Some True"
    by (simp add: write_stdout.simps)
  show ?thesis
    by (simp add: demo_body w1 w2 demo_pass_sel)
qed

end
